theory Spec2Isabelle
  imports Main "HOL-Library.Monad_Syntax"
begin

section \<open>BabySAT with watches: the data model\<close>

text \<open>
  The development follows \<^verbatim>\<open>babysat-watches.cpp\<close>.  Literals are non-zero C
  \<^verbatim>\<open>int\<close>s and index the arrays \<^verbatim>\<open>values\<close>, \<^verbatim>\<open>matrix\<close> and \<^verbatim>\<open>watched\<close> directly
  (the arrays are offset by \<^verbatim>\<open>variables\<close>), so these arrays are total functions on
  \<open>int\<close> here.  The arrays \<^verbatim>\<open>levels\<close>, \<^verbatim>\<open>reasons\<close> and \<^verbatim>\<open>stamped\<close> are indexed by
  \<^verbatim>\<open>abs(lit)\<close>, also an \<open>int\<close>.

  A \<^verbatim>\<open>Clause *\<close> is an address: a natural number, the null pointer being \<open>None\<close>.
  The clause objects live in \<open>heap\<close>; the address of a new clause is the value of
  the counter \<^verbatim>\<open>added\<close> at its allocation (the \<^verbatim>\<open>id\<close> the debug build stores).
  The field \<^verbatim>\<open>size\<close> of the struct is the length of \<open>literals\<close>.  The members
  \<^verbatim>\<open>watch1\<close>, \<^verbatim>\<open>watch2\<close> and \<^verbatim>\<open>blocker\<close> start with the value of their declared
  initialisers, 0.  (\<^verbatim>\<open>add_clause\<close> creates the object in raw storage, so for a clause
  with fewer than two literals the tests \<^verbatim>\<open>c->watch1 != 0\<close> and \<^verbatim>\<open>c->watch2 != 0\<close> read
  members that were never written; the model gives them the declared value.)
\<close>

record clause =
  watch1 :: int
  watch2 :: int
  blocker :: int
  literals :: "int list"

definition new_clause :: "int list \<Rightarrow> clause" where
  "new_clause lits = \<lparr>watch1 = 0, watch2 = 0, blocker = 0, literals = lits\<rparr>"

text \<open>
  The global variables of the solver.  The trail is the list of the literals between
  the pointers \<^verbatim>\<open>trail\<close> and \<^verbatim>\<open>assigned\<close>; \<open>propagated\<close> and the entries of
  \<open>control\<close> are positions in it.  The counters of type \<^verbatim>\<open>size_t\<close> are natural
  numbers (they cannot reach \<open>2 ^ 64\<close> in a run); \<open>level\<close> is an \<^verbatim>\<open>unsigned\<close>, and
  the one place where the code subtracts from it has the wrap-around written out.
\<close>

record solver =
  variables :: int
  "values" :: "int \<Rightarrow> int"
  levels :: "int \<Rightarrow> nat"
  reasons :: "int \<Rightarrow> nat option"
  stamped :: "int \<Rightarrow> nat"
  heap :: "nat \<Rightarrow> clause"
  clauses :: "nat list"
  matrix :: "int \<Rightarrow> nat list"
  watched :: "int \<Rightarrow> nat list"
  empty_clause :: "nat option"
  trail :: "int list"
  propagated :: nat
  control :: "nat list"
  level :: nat
  limit :: nat
  added :: nat
  conflicts :: nat
  backjumps :: nat
  decisions :: nat
  propagations :: nat
  fixed :: int
  searched :: int

text \<open>
  \<^verbatim>\<open>initialize\<close>: all arrays zeroed, the trail empty, level 0.  The conflict limit
  is a global set from the command line before parsing; it is a parameter here.
\<close>

definition initialize :: "int \<Rightarrow> nat \<Rightarrow> solver" where
  "initialize n lim =
     \<lparr>variables = n, values = (\<lambda>_. 0), levels = (\<lambda>_. 0), reasons = (\<lambda>_. None),
      stamped = (\<lambda>_. 0), heap = (\<lambda>_. new_clause []), clauses = [],
      matrix = (\<lambda>_. []), watched = (\<lambda>_. []), empty_clause = None,
      trail = [], propagated = 0, control = [], level = 0, limit = lim,
      added = 0, conflicts = 0, backjumps = 0, decisions = 0, propagations = 0,
      fixed = 0, searched = 1\<rparr>"

section \<open>Assignment store\<close>

definition satisfied_clause :: "solver \<Rightarrow> nat \<Rightarrow> bool" where
  "satisfied_clause s c = list_ex (\<lambda>lit. values s lit > 0) (literals (heap s c))"

definition satisfied :: "solver \<Rightarrow> bool" where
  "satisfied s = (int (length (trail s)) = variables s)"

definition assign :: "int \<Rightarrow> nat option \<Rightarrow> solver \<Rightarrow> solver" where
  "assign lit reason s =
     s\<lparr>values := ((values s)(lit := 1))(- lit := - 1),
       levels := (levels s)(\<bar>lit\<bar> := level s),
       reasons := (reasons s)(\<bar>lit\<bar> := reason),
       trail := trail s @ [lit],
       fixed := (if level s = 0 then fixed s + 1 else fixed s)\<rparr>"

definition unassign :: "int \<Rightarrow> solver \<Rightarrow> solver" where
  "unassign lit s =
     s\<lparr>values := ((values s)(- lit := 0))(lit := 0),
       searched := (if \<bar>lit\<bar> < searched s then \<bar>lit\<bar> else searched s)\<rparr>"

section \<open>Clause store\<close>

definition connect_literal :: "int \<Rightarrow> nat \<Rightarrow> solver \<Rightarrow> solver" where
  "connect_literal lit c s = s\<lparr>matrix := (matrix s)(lit := matrix s lit @ [c])\<rparr>"

definition watch_push :: "int \<Rightarrow> nat \<Rightarrow> solver \<Rightarrow> solver" where
  "watch_push lit c s = s\<lparr>watched := (watched s)(lit := watched s lit @ [c])\<rparr>"

text \<open>
  \<^verbatim>\<open>add_clause\<close>.  The new clause has the address \<open>added s\<close>.  The blocker is
  \<^verbatim>\<open>literals[0]\<close>; for the empty clause that read is outside the object, and the
  blocker of an empty clause is never used again, so it keeps 0 here.
\<close>

definition add_clause :: "int list \<Rightarrow> solver \<Rightarrow> solver" where
  "add_clause lits s =
     (let c = added s;
          s1 = s\<lparr>added := added s + 1,
                 heap := (heap s)(c := new_clause lits),
                 clauses := clauses s @ [c]\<rparr>;
          s2 = fold (\<lambda>lit. connect_literal lit c) lits s1;
          s3 = (if length lits = 0 then s2\<lparr>empty_clause := Some c\<rparr>
                else if length lits = 1 then
                  (let unit = lits ! 0; v = values s2 unit in
                   if v = 0 then assign unit None s2
                   else if v < 0 then s2\<lparr>empty_clause := Some c\<rparr>
                   else s2)
                else s2);
          s4 = (if length lits > 1
                then s3\<lparr>heap := (heap s3)(c := (heap s3 c)\<lparr>watch1 := lits ! 0, watch2 := lits ! 1\<rparr>)\<rparr>
                else s3);
          s5 = (if watch1 (heap s4 c) \<noteq> 0 then watch_push (watch1 (heap s4 c)) c s4 else s4);
          s6 = (if watch2 (heap s5 c) \<noteq> 0 then watch_push (watch2 (heap s5 c)) c s5 else s5)
      in s6\<lparr>heap := (heap s6)(c := (heap s6 c)\<lparr>blocker := (case lits of [] \<Rightarrow> 0 | l # _ \<Rightarrow> l)\<rparr>)\<rparr>)"

text \<open>
  \<^verbatim>\<open>parse\<close> after the header: every clause read is handed to \<^verbatim>\<open>add_clause\<close> in
  input order.  The tokenizer and its error messages are not part of the model; it
  passes only non-zero literals of magnitude at most \<open>variables\<close>.
\<close>

definition parse :: "int \<Rightarrow> nat \<Rightarrow> int list list \<Rightarrow> solver" where
  "parse n lim cs = fold add_clause cs (initialize n lim)"

section \<open>Propagator\<close>

text \<open>
  The loops of \<^verbatim>\<open>propagate\<close> and of the minimization in \<^verbatim>\<open>analyze\<close> are range-based
  \<^verbatim>\<open>for\<close> loops over a \<^verbatim>\<open>std::vector\<close> from which the loop body erases elements
  (\<^verbatim>\<open>v.erase(std::remove(v.begin(), v.end(), x), v.end())\<close>).  The source says of it:
  ``This probably causes problems cause vector is changed while still iterating over
  it''.  The model follows the contiguous storage of the vector: the loop fixes its
  end at entry and reads the storage position by position; an erase moves the
  elements that stay to the front of the storage and leaves the positions behind the
  new end as they were.  \<open>buf\<close> is that storage up to the end fixed at entry, the
  vector itself being a prefix of it: after an erase with result \<open>live\<close> the storage
  is \<open>compact live buf\<close>.
\<close>

definition compact :: "'a list \<Rightarrow> 'a list \<Rightarrow> 'a list" where
  "compact live buf = live @ drop (length live) buf"

definition set_blocker :: "nat \<Rightarrow> int \<Rightarrow> solver \<Rightarrow> solver" where
  "set_blocker c l s = s\<lparr>heap := (heap s)(c := (heap s c)\<lparr>blocker := l\<rparr>)\<rparr>"

definition set_watch1 :: "nat \<Rightarrow> int \<Rightarrow> solver \<Rightarrow> solver" where
  "set_watch1 c l s = s\<lparr>heap := (heap s)(c := (heap s c)\<lparr>watch1 := l\<rparr>)\<rparr>"

definition set_watch2 :: "nat \<Rightarrow> int \<Rightarrow> solver \<Rightarrow> solver" where
  "set_watch2 c l s = s\<lparr>heap := (heap s)(c := (heap s c)\<lparr>watch2 := l\<rparr>)\<rparr>"

text \<open>
  The body of the replacement found in the inner loop: the clause leaves
  \<^verbatim>\<open>watched[-lit]\<close>, enters \<^verbatim>\<open>watched[other]\<close>, and the two \<^verbatim>\<open>if\<close>s, in this order,
  redirect a watched position.
\<close>

definition move_watch :: "int \<Rightarrow> nat \<Rightarrow> int \<Rightarrow> int \<Rightarrow> solver \<Rightarrow> solver" where
  "move_watch lit c check other s =
     (let s1 = s\<lparr>watched := (watched s)(- lit := removeAll c (watched s (- lit)))\<rparr>;
          s2 = watch_push other c s1;
          s3 = (if check = watch1 (heap s2 c) then set_watch2 c other s2 else s2)
      in if check = watch2 (heap s3 c) then set_watch1 c other s3 else s3)"

text \<open>
  The inner loop \<^verbatim>\<open>for (auto other : *c)\<close> with its flag \<^verbatim>\<open>found_new_watch\<close>.  A
  replacement \<open>other = - lit\<close> would push onto the vector that is being iterated;
  that has no defined result (\<open>None\<close>).
\<close>

fun scan :: "int \<Rightarrow> nat \<Rightarrow> int \<Rightarrow> int list \<Rightarrow> bool \<times> solver \<times> nat list
    \<Rightarrow> (bool \<times> solver \<times> nat list) option" where
  "scan lit c check [] st = Some st"
| "scan lit c check (other # rest) (found, s, buf) =
     (let s1 = (if values s other = 1 then set_blocker c other s else s) in
      if \<not> found \<and> values s1 other > - 1
           \<and> watch1 (heap s1 c) \<noteq> other \<and> watch2 (heap s1 c) \<noteq> other
      then (if other = - lit then None
            else let s2 = move_watch lit c check other s1
                 in scan lit c check rest (True, s2, compact (watched s2 (- lit)) buf))
      else scan lit c check rest (found, s1, buf))"

text \<open>
  One pass of the body of \<^verbatim>\<open>for (auto c : occurrences)\<close>.  The result is the
  conflicting clause, if the body returns one, with the state and the storage.
\<close>

definition visit :: "int \<Rightarrow> nat \<Rightarrow> solver \<Rightarrow> nat list
    \<Rightarrow> (nat option \<times> solver \<times> nat list) option" where
  "visit lit c s buf =
     (if values s (blocker (heap s c)) = 1 then Some (None, s, buf)
      else let check = (if watch1 (heap s c) = - lit then watch2 (heap s c)
                        else watch1 (heap s c)) in
        if values s check = 1 then Some (None, s, buf)
        else case scan lit c check (literals (heap s c)) (False, s, buf) of
               None \<Rightarrow> None
             | Some (found, s1, buf1) \<Rightarrow>
                 if \<not> found then
                   (if values s1 check = - 1
                    then Some (Some c, s1\<lparr>conflicts := conflicts s1 + 1\<rparr>, buf1)
                    else if values s1 check = 0
                    then Some (None, assign check (Some c) s1, buf1)
                    else Some (None, s1, buf1))
                 else Some (None, s1, buf1))"

function visit_all :: "int \<Rightarrow> nat \<Rightarrow> nat \<Rightarrow> solver \<Rightarrow> nat list
    \<Rightarrow> (nat option \<times> solver) option" where
  "visit_all lit i n s buf =
     (if i < n then
        (case visit lit (buf ! i) s buf of
           None \<Rightarrow> None
         | Some (Some c, s1, buf1) \<Rightarrow> Some (Some c, s1)
         | Some (None, s1, buf1) \<Rightarrow> visit_all lit (i + 1) n s1 buf1)
      else Some (None, s))"
  by pat_completeness auto
termination
  by (relation "measure (\<lambda>(lit, i, n, s, buf). n - i)") auto

text \<open>
  \<^verbatim>\<open>propagate\<close>: the conflicting clause or the null pointer, with the state.  The
  loop condition is \<^verbatim>\<open>propagated != assigned\<close>; a cursor beyond the trail would read
  behind the assigned literals (\<open>None\<close>).
\<close>

partial_function (option) propagate :: "solver \<Rightarrow> (nat option \<times> solver) option" where
  "propagate s =
     (if propagated s \<noteq> length (trail s) then
        (if propagated s > length (trail s) then None
         else let lit = trail s ! propagated s;
                  s1 = s\<lparr>propagations := propagations s + 1, propagated := propagated s + 1\<rparr>;
                  buf = watched s1 (- lit)
              in case visit_all lit 0 (length buf) s1 buf of
                   None \<Rightarrow> None
                 | Some (Some c, s2) \<Rightarrow> Some (Some c, s2)
                 | Some (None, s2) \<Rightarrow> propagate s2)
      else Some (None, s))"

declare propagate.simps [code]

section \<open>Decider\<close>

text \<open>
  The loop of \<^verbatim>\<open>decide\<close>, \<^verbatim>\<open>while (assert(searched <= variables), values[searched])
  searched++\<close>: the failing assertion is the result \<open>None\<close>.
\<close>

function next_unassigned :: "solver \<Rightarrow> int \<Rightarrow> int option" where
  "next_unassigned s i =
     (if i > variables s then None
      else if values s i \<noteq> 0 then next_unassigned s (i + 1)
      else Some i)"
  by pat_completeness auto
termination
  by (relation "measure (\<lambda>(s, i). nat (variables s + 1 - i))") auto

definition decide :: "solver \<Rightarrow> solver option" where
  "decide s =
     (case next_unassigned s (searched s) of
        None \<Rightarrow> None
      | Some v \<Rightarrow>
          Some (assign v None
                 (s\<lparr>decisions := decisions s + 1, searched := v, level := level s + 1,
                    control := control s @ [length (trail s)],
                    stamped := (stamped s)(v := 0)\<rparr>)))"

text \<open>
  \<^verbatim>\<open>backtrack\<close>: \<^verbatim>\<open>control[new_level]\<close> must exist and must not lie behind the
  trail (else \<open>None\<close>); the literals above it are popped and unassigned, last first.
\<close>

fun unassign_all :: "int list \<Rightarrow> solver \<Rightarrow> solver" where
  "unassign_all [] s = s"
| "unassign_all (lit # rest) s = unassign_all rest (unassign lit s)"

definition backtrack :: "nat \<Rightarrow> solver \<Rightarrow> solver option" where
  "backtrack new_level s =
     (if new_level \<ge> length (control s) then None
      else let before_pos = control s ! new_level in
        if before_pos > length (trail s) then None
        else Some ((unassign_all (rev (drop before_pos (trail s))) s)
                     \<lparr>trail := take before_pos (trail s),
                      control := take new_level (control s),
                      propagated := before_pos,
                      level := new_level\<rparr>))"

section \<open>Analyzer\<close>

text \<open>\<^verbatim>\<open>analyze_literal\<close> with its two reference parameters \<^verbatim>\<open>current\<close> and \<^verbatim>\<open>lower\<close>.\<close>

definition analyze_literal :: "int \<Rightarrow> solver \<times> int \<times> int \<Rightarrow> solver \<times> int \<times> int" where
  "analyze_literal lit = (\<lambda>(s, current, lower).
     (let idx = \<bar>lit\<bar>; lvl = levels s idx in
      if lvl = 0 \<or> stamped s idx = conflicts s then (s, current, lower)
      else let s1 = s\<lparr>stamped := (stamped s)(idx := conflicts s)\<rparr> in
        if lvl = level s then (s1, current + 1, lower) else (s1, current, lower + 1)))"

definition analyze_clause :: "nat \<Rightarrow> solver \<times> int \<times> int \<Rightarrow> solver \<times> int \<times> int" where
  "analyze_clause c st = fold analyze_literal (literals (heap (fst st) c)) st"

text \<open>
  The pointer \<^verbatim>\<open>copy\<close> walks down the trail.  In the three loops below the first
  argument \<open>k\<close> is the number of trail entries not yet passed, so \<^verbatim>\<open>*copy--\<close> reads
  \<open>trail s ! (k - 1)\<close>; reading below the trail has no defined result (\<open>None\<close>).

  First loop, \<^verbatim>\<open>while (current > 1)\<close>.
\<close>

fun resolve_loop :: "nat \<Rightarrow> solver \<times> int \<times> int \<Rightarrow> (nat \<times> solver \<times> int \<times> int) option" where
  "resolve_loop 0 (s, current, lower) =
     (if current > 1 then None else Some (0, s, current, lower))"
| "resolve_loop (Suc k) (s, current, lower) =
     (if current > 1 then
        (let lit = trail s ! k; idx = \<bar>lit\<bar> in
         if stamped s idx = conflicts s then
           (case (case reasons s idx of
                    None \<Rightarrow> (s, current, lower)
                  | Some reason \<Rightarrow> analyze_clause reason (s, current, lower)) of
              (s1, current1, lower1) \<Rightarrow> resolve_loop k (s1, current1 - 1, lower1))
         else resolve_loop k (s, current, lower))
      else Some (Suc k, s, current, lower))"

text \<open>Second loop, \<^verbatim>\<open>while (stamped[abs(*copy)] != conflicts) copy--\<close>, and \<^verbatim>\<open>uip = *copy--\<close>.\<close>

fun find_uip :: "nat \<Rightarrow> solver \<Rightarrow> (int \<times> nat) option" where
  "find_uip 0 s = None"
| "find_uip (Suc k) s =
     (if stamped s \<bar>trail s ! k\<bar> \<noteq> conflicts s then find_uip k s
      else Some (trail s ! k, k))"

text \<open>Third loop, \<^verbatim>\<open>while (lower)\<close>: the learned literals and the backjump level.\<close>

fun collect_lower :: "nat \<Rightarrow> solver \<Rightarrow> int \<Rightarrow> int list \<Rightarrow> nat \<Rightarrow> (int list \<times> nat) option" where
  "collect_lower 0 s lower learned backjump =
     (if lower \<noteq> 0 then None else Some (learned, backjump))"
| "collect_lower (Suc k) s lower learned backjump =
     (if lower \<noteq> 0 then
        (let lit = trail s ! k; idx = \<bar>lit\<bar> in
         if stamped s idx = conflicts s then
           collect_lower k s (lower - 1) (learned @ [- lit])
             (if levels s idx > backjump then levels s idx else backjump)
         else collect_lower k s lower learned backjump)
      else Some (learned, backjump))"

text \<open>
  ``Simple minimization'': one pass of the body for the element \<open>lit\<close> read from the
  storage, on the vector \<open>learned\<close>.
\<close>

definition minimize_step :: "solver \<Rightarrow> int \<Rightarrow> int list \<Rightarrow> int list" where
  "minimize_step s lit learned =
     (case reasons s \<bar>lit\<bar> of
        None \<Rightarrow> learned
      | Some reason \<Rightarrow>
          if list_all (\<lambda>other. \<bar>lit\<bar> = \<bar>other\<bar> \<or> List.member learned other)
               (literals (heap s reason))
          then removeAll lit learned else learned)"

function minimize_loop :: "solver \<Rightarrow> nat \<Rightarrow> nat \<Rightarrow> int list \<Rightarrow> int list \<Rightarrow> int list" where
  "minimize_loop s i n buf learned =
     (if i < n then
        (let learned1 = minimize_step s (buf ! i) learned
         in minimize_loop s (i + 1) n (compact learned1 buf) learned1)
      else learned)"
  by pat_completeness auto
termination
  by (relation "measure (\<lambda>(s, i, n, buf, learned). n - i)") auto

definition minimize :: "solver \<Rightarrow> int list \<Rightarrow> int list" where
  "minimize s learned = minimize_loop s 0 (length learned) learned learned"

text \<open>
  The analysis up to the learned clause: the stamped state, the UIP, the learned
  literals before and after minimization (without the UIP) and the backjump level.
\<close>

definition analyze_conflict :: "nat \<Rightarrow> solver \<Rightarrow> (solver \<times> int \<times> int list \<times> int list \<times> nat) option" where
  "analyze_conflict c s =
     (case analyze_clause c (s, 0, 0) of (s1, current, lower) \<Rightarrow>
       (case resolve_loop (length (trail s1)) (s1, current, lower) of
          None \<Rightarrow> None
        | Some (k1, s2, current2, lower2) \<Rightarrow>
           (case find_uip k1 s2 of
              None \<Rightarrow> None
            | Some (uip, k2) \<Rightarrow>
               (case collect_lower k2 s2 lower2 [] 0 of
                  None \<Rightarrow> None
                | Some (learned, backjump) \<Rightarrow>
                    Some (s2, uip, learned, minimize s2 learned, backjump)))))"

text \<open>
  \<^verbatim>\<open>analyze\<close>.  The last statement compares \<^verbatim>\<open>backjump < level - 1\<close> on \<^verbatim>\<open>unsigned\<close>
  operands (32 bits, the subtraction wraps around), after \<^verbatim>\<open>backtrack\<close> has set
  \<^verbatim>\<open>level\<close>.
\<close>

definition analyze :: "nat \<Rightarrow> solver \<Rightarrow> solver option" where
  "analyze c s =
     (case analyze_conflict c s of
        None \<Rightarrow> None
      | Some (s2, uip, learned0, learned1, backjump) \<Rightarrow>
          (let learned = learned1 @ [- uip] in
           case backtrack backjump s2 of
             None \<Rightarrow> None
           | Some s3 \<Rightarrow>
               (let s4 = (if length learned > 1
                          then assign (- uip) (Some (added s3)) (add_clause learned s3)
                          else assign (- uip) None s3)
                in Some (if int backjump < (int (level s4) - 1) mod 2 ^ 32
                         then s4\<lparr>backjumps := backjumps s4 + 1\<rparr> else s4))))"

section \<open>Search driver\<close>

definition unknown :: int where "unknown = 0"
definition satisfiable :: int where "satisfiable = 10"
definition unsatisfiable :: int where "unsatisfiable = 20"

partial_function (option) solve_loop :: "solver \<Rightarrow> (int \<times> solver) option" where
  "solve_loop s =
     (case propagate s of
        None \<Rightarrow> None
      | Some (Some conflict, s1) \<Rightarrow>
          if level s1 = 0 then Some (unsatisfiable, s1)
          else (case analyze conflict s1 of None \<Rightarrow> None | Some s2 \<Rightarrow> solve_loop s2)
      | Some (None, s1) \<Rightarrow>
          if satisfied s1 then Some (satisfiable, s1)
          else if conflicts s1 \<ge> limit s1 then Some (unknown, s1)
          else (case decide s1 of None \<Rightarrow> None | Some s2 \<Rightarrow> solve_loop s2))"

declare solve_loop.simps [code]

definition solve :: "solver \<Rightarrow> (int \<times> solver) option" where
  "solve s = (if empty_clause s \<noteq> None then Some (unsatisfiable, s) else solve_loop s)"

text \<open>
  \<^verbatim>\<open>check_model\<close> stops at the first clause of the store that is not satisfied,
  prints it on \<^verbatim>\<open>stderr\<close> and aborts; the result here is that clause, if any.
\<close>

definition check_model :: "solver \<Rightarrow> nat option" where
  "check_model s = find (\<lambda>c. \<not> satisfied_clause s c) (clauses s)"

text \<open>
  The end of \<^verbatim>\<open>main\<close>, after \<^verbatim>\<open>solve\<close> has returned \<open>res\<close>: the exit code of the
  process (\<open>None\<close> when \<^verbatim>\<open>check_model\<close> aborts it) and the clauses written to
  \<^verbatim>\<open>stderr\<close>.
\<close>

definition main_exit :: "int \<Rightarrow> solver \<Rightarrow> int option \<times> int list list" where
  "main_exit res s =
     (if res = 10 then
        (case check_model s of
           None \<Rightarrow> (Some res, [])
         | Some c \<Rightarrow> (None, [literals (heap s c)]))
      else (Some res, []))"


section \<open>Auxiliary notions for the statements\<close>

text \<open>
  The part of \<^verbatim>\<open>add_clause\<close> that does not depend on the size: the clause is
  allocated at the address \<open>added s\<close> with its blocker, counted, pushed on
  \<^verbatim>\<open>clauses\<close>, and connected in \<^verbatim>\<open>matrix\<close> under each of its literals.
\<close>

definition connected :: "nat \<Rightarrow> int list \<Rightarrow> (int \<Rightarrow> nat list) \<Rightarrow> (int \<Rightarrow> nat list)" where
  "connected c lits m = fold (\<lambda>lit m. m(lit := m lit @ [c])) lits m"

definition store_clause :: "int list \<Rightarrow> solver \<Rightarrow> solver" where
  "store_clause lits s =
     s\<lparr>added := added s + 1,
       heap := (heap s)(added s :=
                 (new_clause lits)\<lparr>blocker := (case lits of [] \<Rightarrow> 0 | l # _ \<Rightarrow> l)\<rparr>),
       clauses := clauses s @ [added s],
       matrix := connected (added s) lits (matrix s)\<rparr>"

text \<open>
  Sign consistency of the assignment: for every literal of a variable in
  \<open>1..variables\<close> the entries of the literal and of its negation are opposite, each
  being 0, 1 or -1.
\<close>

definition sign_consistent :: "solver \<Rightarrow> bool" where
  "sign_consistent s = (\<forall>l. 1 \<le> \<bar>l\<bar> \<and> \<bar>l\<bar> \<le> variables s \<longrightarrow>
      values s l = - values s (- l) \<and> (values s l = 0 \<or> values s l = 1 \<or> values s l = - 1))"


text \<open>Two states that differ at most in the stamps.\<close>

definition restamp :: "solver \<Rightarrow> solver \<Rightarrow> bool" where
  "restamp s s' = (\<exists>f. s' = s\<lparr>stamped := f\<rparr>)"

text \<open>
  The end of \<^verbatim>\<open>analyze\<close> after \<^verbatim>\<open>backtrack\<close>: the learned clause is added if it has
  more than one literal, and the negated UIP is assigned.
\<close>

definition learn_and_assign :: "int \<Rightarrow> int list \<Rightarrow> solver \<Rightarrow> solver" where
  "learn_and_assign uip learned1 s3 =
     (if length (learned1 @ [- uip]) > 1
      then assign (- uip) (Some (added s3)) (add_clause (learned1 @ [- uip]) s3)
      else assign (- uip) None s3)"

text \<open>
  Notions for one pass of the loop body of \<^verbatim>\<open>propagate\<close> on a clause \<open>c\<close>:
  the first statement of the inner loop (\<open>blocker_step\<close>), its test for a replacement
  watch (\<open>replaces\<close>, \<open>replacement\<close> being the first literal of the clause that passes
  it), the literal \<^verbatim>\<open>check\<close> the body computes (\<open>other_watch\<close>), and states that
  differ at most in the blocker of \<open>c\<close>.
\<close>

definition blocker_step :: "nat \<Rightarrow> int \<Rightarrow> solver \<Rightarrow> solver" where
  "blocker_step c other s = (if values s other = 1 then set_blocker c other s else s)"

definition replaces :: "solver \<Rightarrow> nat \<Rightarrow> int \<Rightarrow> bool" where
  "replaces s c other =
     (values s other > - 1 \<and> watch1 (heap s c) \<noteq> other \<and> watch2 (heap s c) \<noteq> other)"

definition same_but_blocker :: "nat \<Rightarrow> solver \<Rightarrow> solver \<Rightarrow> bool" where
  "same_but_blocker c s s' = (\<exists>b. s' = set_blocker c b s)"

definition other_watch :: "solver \<Rightarrow> int \<Rightarrow> nat \<Rightarrow> int" where
  "other_watch s lit c =
     (if watch1 (heap s c) = - lit then watch2 (heap s c) else watch1 (heap s c))"

definition replacement :: "solver \<Rightarrow> nat \<Rightarrow> int option" where
  "replacement s c = find (replaces s c) (literals (heap s c))"

text \<open>Every entry of the assignment array is 1, 0 or -1.\<close>

definition three_valued :: "solver \<Rightarrow> bool" where
  "three_valued s = (\<forall>l. values s l = 1 \<or> values s l = 0 \<or> values s l = - 1)"

text \<open>
  The test of the minimization on a literal \<open>l\<close> of the vector \<open>learned\<close>: the variable has
  a reason, and every literal of the reason on another variable is in the vector.
\<close>

definition redundant :: "solver \<Rightarrow> int list \<Rightarrow> int \<Rightarrow> bool" where
  "redundant s learned l =
     (\<exists>reason. reasons s \<bar>l\<bar> = Some reason
        \<and> (\<forall>other\<in>set (literals (heap s reason)). \<bar>other\<bar> \<noteq> \<bar>l\<bar> \<longrightarrow> other \<in> set learned))"

text \<open>
  Well-formedness of the clause store with respect to the watches: no clause contains
  the literal 0; the watched positions of a clause with at least two literals are
  literals of the clause; the clauses in the watch lists have at least two literals;
  and the addresses not yet allocated hold no literals.
\<close>

definition watch_invariant :: "solver \<Rightarrow> bool" where
  "watch_invariant s =
     ((\<forall>c. 0 \<notin> set (literals (heap s c)))
      \<and> (\<forall>c. 2 \<le> length (literals (heap s c)) \<longrightarrow>
             watch1 (heap s c) \<in> set (literals (heap s c))
             \<and> watch2 (heap s c) \<in> set (literals (heap s c)))
      \<and> (\<forall>l. \<forall>c\<in>set (watched s l). 2 \<le> length (literals (heap s c)))
      \<and> (\<forall>c\<ge>added s. literals (heap s c) = []))"

text \<open>
  The cursor \<^verbatim>\<open>searched\<close> of \<^verbatim>\<open>decide\<close> is a variable index, and no variable below
  it is unassigned.
\<close>

definition searched_invariant :: "solver \<Rightarrow> bool" where
  "searched_invariant s =
     (1 \<le> searched s \<and> (\<forall>u. 1 \<le> u \<and> u < searched s \<longrightarrow> values s u \<noteq> 0))"

text \<open>The two together, with a trail of non-zero literals.\<close>

definition basic_invariant :: "solver \<Rightarrow> bool" where
  "basic_invariant s = (watch_invariant s \<and> searched_invariant s \<and> 0 \<notin> set (trail s))"

text \<open>
  The states of the runs of the solver at the points between calls of its procedures:
  \<^verbatim>\<open>initialize\<close>, then \<^verbatim>\<open>add_clause\<close> on the clauses that \<^verbatim>\<open>parse\<close> reads (their
  literals are non-zero, 0 being the terminator of a clause), then the calls that
  \<^verbatim>\<open>solve\<close> makes: \<^verbatim>\<open>propagate\<close>, \<^verbatim>\<open>decide\<close>, and \<^verbatim>\<open>analyze\<close> on the conflict that
  \<^verbatim>\<open>propagate\<close> has just returned.
\<close>

inductive reachable :: "solver \<Rightarrow> bool" where
  reachable_initialize: "reachable (initialize n lim)"
| reachable_add_clause: "reachable s \<Longrightarrow> 0 \<notin> set lits \<Longrightarrow> reachable (add_clause lits s)"
| reachable_propagate: "reachable s \<Longrightarrow> propagate s = Some (r, s') \<Longrightarrow> reachable s'"
| reachable_decide: "reachable s \<Longrightarrow> decide s = Some s' \<Longrightarrow> reachable s'"
| reachable_analyze: "reachable s \<Longrightarrow> propagate s = Some (Some c, s1) \<Longrightarrow>
     analyze c s1 = Some s' \<Longrightarrow> reachable s'"

text \<open>
  The number of decisions up to and including the trail position \<open>i\<close>: \<^verbatim>\<open>decide\<close>
  pushes the height of the trail on \<open>control\<close> before it assigns the decision, so the
  entries of \<open>control\<close> are the positions of the decision literals on the trail.
\<close>

definition decisions_upto :: "solver \<Rightarrow> nat \<Rightarrow> nat" where
  "decisions_upto s i = length (filter (\<lambda>p. p \<le> i) (control s))"

text \<open>
  Consistency of the trail: every literal on it has the value true, and the level
  recorded for its variable is the number of decisions up to its position.
\<close>

definition trail_consistent :: "solver \<Rightarrow> bool" where
  "trail_consistent s = (\<forall>i<length (trail s).
      values s (trail s ! i) = 1 \<and> levels s \<bar>trail s ! i\<bar> = decisions_upto s i)"

text \<open>
  The invariant that carries it: the variables on the trail are distinct, \<open>control\<close>
  is strictly increasing with positions on the trail, \<open>level\<close> is its height, a literal
  is unassigned exactly when its negation is, and no stamp is ahead of the counter
  \<open>conflicts\<close>.
\<close>

definition trail_invariant :: "solver \<Rightarrow> bool" where
  "trail_invariant s =
     (trail_consistent s \<and> distinct (map abs (trail s))
      \<and> sorted_wrt (<) (control s) \<and> (\<forall>p\<in>set (control s). p < length (trail s))
      \<and> level s = length (control s)
      \<and> (\<forall>l. (values s l = 0) = (values s (- l) = 0))
      \<and> (\<forall>v. stamped s v \<le> conflicts s))"

text \<open>
  Notions for the conflict analysis.  The variables stamped in the current
  analysis are those whose stamp is the value of \<open>conflicts\<close>.  The counters
  \<^verbatim>\<open>current\<close> and \<^verbatim>\<open>lower\<close> of \<^verbatim>\<open>analyze\<close> count them: \<open>lower\<close> the stamped variables
  with a level other than the current one, and \<open>current\<close> those with the current
  level, less the number \<open>m\<close> of stamped trail entries that the first loop has passed.
  Level 0 variables are not stamped.
\<close>

definition stamped_vars :: "solver \<Rightarrow> int set" where
  "stamped_vars s = {v. stamped s v = conflicts s}"

definition counters :: "solver \<Rightarrow> int \<Rightarrow> int \<Rightarrow> nat \<Rightarrow> bool" where
  "counters s current lower m =
     (finite (stamped_vars s)
      \<and> current = int (card {v \<in> stamped_vars s. levels s v = level s}) - int m
      \<and> lower = int (card {v \<in> stamped_vars s. levels s v \<noteq> level s})
      \<and> (\<forall>v\<in>stamped_vars s. levels s v \<noteq> 0)
      \<and> (\<forall>v. stamped s v \<le> conflicts s))"

text \<open>
  The quiescent points of a run: the states between the calls (\<open>reachable\<close>), and the
  points inside \<^verbatim>\<open>add_clause\<close>, \<^verbatim>\<open>decide\<close> and \<^verbatim>\<open>analyze\<close> between their calls of
  \<^verbatim>\<open>assign\<close> and \<^verbatim>\<open>backtrack\<close>: in \<^verbatim>\<open>add_clause\<close> when the clause is stored, in
  \<^verbatim>\<open>decide\<close> before the decision is assigned, in \<^verbatim>\<open>analyze\<close> when the learned
  clause is derived, after \<^verbatim>\<open>backtrack\<close>, and after the learned clause is added.
\<close>

inductive quiescent :: "solver \<Rightarrow> bool" where
  quiescent_reachable: "reachable s \<Longrightarrow> quiescent s"
| quiescent_add_clause: "reachable s \<Longrightarrow> quiescent (store_clause lits s)"
| quiescent_decide: "reachable s \<Longrightarrow> next_unassigned s (searched s) = Some v \<Longrightarrow>
     quiescent (s\<lparr>decisions := decisions s + 1, searched := v, level := level s + 1,
                  control := control s @ [length (trail s)], stamped := (stamped s)(v := 0)\<rparr>)"
| quiescent_analyze_stamped: "reachable s \<Longrightarrow> propagate s = Some (Some c, s1) \<Longrightarrow>
     analyze_conflict c s1 = Some (s2, uip, learned0, learned1, b) \<Longrightarrow> quiescent s2"
| quiescent_analyze_backtracked: "reachable s \<Longrightarrow> propagate s = Some (Some c, s1) \<Longrightarrow>
     analyze_conflict c s1 = Some (s2, uip, learned0, learned1, b) \<Longrightarrow>
     backtrack b s2 = Some s3 \<Longrightarrow> quiescent s3"
| quiescent_analyze_learned: "reachable s \<Longrightarrow> propagate s = Some (Some c, s1) \<Longrightarrow>
     analyze_conflict c s1 = Some (s2, uip, learned0, learned1, b) \<Longrightarrow>
     backtrack b s2 = Some s3 \<Longrightarrow> quiescent (add_clause (learned1 @ [- uip]) s3)"


section \<open>Sign consistency of the assignment\<close>

declare visit_all.simps [simp del]
declare minimize_loop.simps [simp del]
declare next_unassigned.simps [simp del]

lemma fold_connect_literal:
  "fold (\<lambda>lit. connect_literal lit c) lits s = s\<lparr>matrix := connected c lits (matrix s)\<rparr>"
  by (induction lits arbitrary: s) (simp_all add: connect_literal_def connected_def)

lemma sign_consistentD:
  "sign_consistent s \<Longrightarrow> 1 \<le> \<bar>l\<bar> \<Longrightarrow> \<bar>l\<bar> \<le> variables s \<Longrightarrow>
   values s l = - values s (- l) \<and> (values s l = 0 \<or> values s l = 1 \<or> values s l = - 1)"
  unfolding sign_consistent_def by blast

lemma sign_consistent_frame:
  "values s' = values s \<Longrightarrow> variables s' = variables s \<Longrightarrow> sign_consistent s \<Longrightarrow> sign_consistent s'"
  unfolding sign_consistent_def by metis

lemma values_assign:
  "values (assign lit r s) l = (if l = - lit then - 1 else if l = lit then 1 else values s l)"
  by (simp add: assign_def)

lemma variables_assign [simp]: "variables (assign lit r s) = variables s"
  by (simp add: assign_def)

lemma values_unassign:
  "values (unassign lit s) l = (if l = lit \<or> l = - lit then 0 else values s l)"
  by (simp add: unassign_def)

lemma variables_unassign [simp]: "variables (unassign lit s) = variables s"
  by (simp add: unassign_def)

lemma sign_consistent_assign:
  assumes "sign_consistent s" shows "sign_consistent (assign lit r s)"
  unfolding sign_consistent_def
proof (intro allI impI)
  fix l :: int
  assume r: "1 \<le> \<bar>l\<bar> \<and> \<bar>l\<bar> \<le> variables (assign lit r s)"
  then have l0: "l \<noteq> 0" by auto
  from r have r': "1 \<le> \<bar>l\<bar>" "\<bar>l\<bar> \<le> variables s" by simp_all
  from sign_consistentD [OF assms r'] have old: "values s (- l) = - values s l"
    "values s l = 0 \<or> values s l = 1 \<or> values s l = - 1"
    by linarith+
  have "l = lit \<or> l = - lit \<or> (l \<noteq> lit \<and> l \<noteq> - lit)" by blast
  then show "values (assign lit r s) l = - values (assign lit r s) (- l) \<and>
    (values (assign lit r s) l = 0 \<or> values (assign lit r s) l = 1 \<or> values (assign lit r s) l = - 1)"
  proof (elim disjE)
    assume "l = lit" with l0 show ?thesis by (simp add: values_assign)
  next
    assume "l = - lit" with l0 show ?thesis by (simp add: values_assign)
  next
    assume "l \<noteq> lit \<and> l \<noteq> - lit"
    then have "- l \<noteq> - lit" "- l \<noteq> lit" by auto
    with \<open>l \<noteq> lit \<and> l \<noteq> - lit\<close> old show ?thesis by (simp add: values_assign)
  qed
qed

lemma sign_consistent_unassign:
  assumes "sign_consistent s" shows "sign_consistent (unassign lit s)"
  unfolding sign_consistent_def
proof (intro allI impI)
  fix l :: int
  assume r: "1 \<le> \<bar>l\<bar> \<and> \<bar>l\<bar> \<le> variables (unassign lit s)"
  from r have r': "1 \<le> \<bar>l\<bar>" "\<bar>l\<bar> \<le> variables s" by simp_all
  from sign_consistentD [OF assms r'] have old: "values s (- l) = - values s l"
    "values s l = 0 \<or> values s l = 1 \<or> values s l = - 1"
    by linarith+
  have "l = lit \<or> l = - lit \<or> (l \<noteq> lit \<and> l \<noteq> - lit)" by blast
  then show "values (unassign lit s) l = - values (unassign lit s) (- l) \<and>
    (values (unassign lit s) l = 0 \<or> values (unassign lit s) l = 1 \<or> values (unassign lit s) l = - 1)"
  proof (elim disjE)
    assume "l = lit" then show ?thesis by (simp add: values_unassign)
  next
    assume "l = - lit" then show ?thesis by (simp add: values_unassign)
  next
    assume "l \<noteq> lit \<and> l \<noteq> - lit"
    then have "- l \<noteq> - lit" "- l \<noteq> lit" by auto
    with \<open>l \<noteq> lit \<and> l \<noteq> - lit\<close> old show ?thesis by (simp add: values_unassign)
  qed
qed

lemma sign_consistent_unassign_all: "sign_consistent s \<Longrightarrow> sign_consistent (unassign_all ls s)"
  by (induction ls arbitrary: s) (simp_all add: sign_consistent_unassign)



lemma values_move_watch [simp]: "values (move_watch lit c check other s) = values s"
  by (simp add: move_watch_def Let_def watch_push_def set_watch1_def set_watch2_def)

lemma variables_move_watch [simp]: "variables (move_watch lit c check other s) = variables s"
  by (simp add: move_watch_def Let_def watch_push_def set_watch1_def set_watch2_def)

lemma values_set_blocker [simp]: "values (set_blocker c l s) = values s"
  by (simp add: set_blocker_def)

lemma variables_set_blocker [simp]: "variables (set_blocker c l s) = variables s"
  by (simp add: set_blocker_def)

lemma scan_values:
  "scan lit c check ls (f, s, buf) = Some (f', s', buf') \<Longrightarrow>
   values s' = values s \<and> variables s' = variables s"
proof (induction ls arbitrary: f s buf)
  case Nil
  then show ?case by simp
next
  case (Cons other rest)
  define s1 where "s1 = (if values s other = 1 then set_blocker c other s else s)"
  have vs1: "values s1 = values s" "variables s1 = variables s" by (simp_all add: s1_def)
  show ?case
  proof (cases "\<not> f \<and> values s1 other > - 1
           \<and> watch1 (heap s1 c) \<noteq> other \<and> watch2 (heap s1 c) \<noteq> other")
    case True
    with Cons.prems have ne: "other \<noteq> - lit"
      by (auto simp: s1_def [symmetric] Let_def split: if_splits)
    from Cons.prems True ne
    have "scan lit c check rest (True, move_watch lit c check other s1,
            compact (watched (move_watch lit c check other s1) (- lit)) buf) = Some (f', s', buf')"
      by (simp add: s1_def [symmetric] Let_def)
    from Cons.IH [OF this] vs1 show ?thesis by simp
  next
    case False
    with Cons.prems have "scan lit c check rest (f, s1, buf) = Some (f', s', buf')"
      by (simp add: s1_def [symmetric] Let_def)
    from Cons.IH [OF this] vs1 show ?thesis by simp
  qed
qed

lemma sign_consistent_visit:
  assumes "sign_consistent s" and "visit lit c s buf = Some (r, s', buf')"
  shows "sign_consistent s'"
proof (cases "values s (blocker (heap s c)) = 1")
  case True
  with assms show ?thesis by (simp add: visit_def)
next
  case False
  define check where "check = (if watch1 (heap s c) = - lit then watch2 (heap s c)
                        else watch1 (heap s c))"
  show ?thesis
  proof (cases "values s check = 1")
    case True
    with False assms show ?thesis by (simp add: visit_def check_def [symmetric])
  next
    case c1: False
    from assms(2) False c1 obtain found s1 buf1 where
      sc: "scan lit c check (literals (heap s c)) (False, s, buf) = Some (found, s1, buf1)"
      by (auto simp: visit_def check_def [symmetric] Let_def split: option.splits)
    from scan_values [OF sc] assms(1) have s1: "sign_consistent s1"
      by (auto intro: sign_consistent_frame)
    have s1c: "sign_consistent (s1\<lparr>conflicts := conflicts s1 + 1\<rparr>)"
      by (rule sign_consistent_frame [OF _ _ s1]) simp_all
    from assms(2) False c1 sc
    have "s' = s1 \<or> s' = s1\<lparr>conflicts := conflicts s1 + 1\<rparr> \<or> s' = assign check (Some c) s1"
      by (auto simp: visit_def check_def [symmetric] Let_def split: if_splits)
    with s1 s1c sign_consistent_assign [OF s1] show ?thesis by auto
  qed
qed

lemma sign_consistent_visit_all:
  "sign_consistent s \<Longrightarrow> visit_all lit i n s buf = Some (r, s') \<Longrightarrow> sign_consistent s'"
proof (induction lit i n s buf rule: visit_all.induct)
  case (1 lit i n s buf)
  show ?case
  proof (cases "i < n")
    case False
    with "1.prems" show ?thesis by (simp add: visit_all.simps)
  next
    case True
    with "1.prems"(2) obtain r1 s1 buf1 where v: "visit lit (buf ! i) s buf = Some (r1, s1, buf1)"
      by (subst (asm) visit_all.simps) (auto split: option.splits)
    from sign_consistent_visit [OF "1.prems"(1) v] have s1: "sign_consistent s1" .
    show ?thesis
    proof (cases r1)
      case None
      with True v "1.prems"(2) have "visit_all lit (i + 1) n s1 buf1 = Some (r, s')"
        by (subst (asm) visit_all.simps) simp
      from "1.IH" [OF True v refl None refl s1 this] show ?thesis .
    next
      case (Some c)
      with True v "1.prems"(2) have "s' = s1"
        by (subst (asm) visit_all.simps) simp
      with s1 show ?thesis by simp
    qed
  qed
qed


lemma sign_consistent_propagate_aux:
  assumes "propagate s = Some y"
  shows "sign_consistent s \<longrightarrow> sign_consistent (snd y)"
  using assms
proof (rule propagate.raw_induct [rotated])
  fix propagate' :: "solver \<Rightarrow> (nat option \<times> solver) option" and s sa
  assume IH: "\<And>x y. propagate' x = Some y \<Longrightarrow> sign_consistent x \<longrightarrow> sign_consistent (snd y)"
  assume body: "(if propagated s \<noteq> length (trail s) then
        (if propagated s > length (trail s) then None
         else let lit = trail s ! propagated s;
                  s1 = s\<lparr>propagations := propagations s + 1, propagated := propagated s + 1\<rparr>;
                  buf = watched s1 (- lit)
              in case visit_all lit 0 (length buf) s1 buf of
                   None \<Rightarrow> None
                 | Some (Some c, s2) \<Rightarrow> Some (Some c, s2)
                 | Some (None, s2) \<Rightarrow> propagate' s2)
      else Some (None, s)) = Some sa"
  show "sign_consistent s \<longrightarrow> sign_consistent (snd sa)"
  proof
    assume sc: "sign_consistent s"
    show "sign_consistent (snd sa)"
    proof (cases "propagated s \<noteq> length (trail s)")
      case False
      with body sc show ?thesis by auto
    next
      case True
      define s1 where "s1 = s\<lparr>propagations := propagations s + 1, propagated := propagated s + 1\<rparr>"
      define lit where "lit = trail s ! propagated s"
      have s1c: "sign_consistent s1"
        by (rule sign_consistent_frame [OF _ _ sc]) (simp_all add: s1_def)
      from True body have body':
        "(case visit_all lit 0 (length (watched s1 (- lit))) s1 (watched s1 (- lit)) of
                   None \<Rightarrow> None
                 | Some (Some c, s2) \<Rightarrow> Some (Some c, s2)
                 | Some (None, s2) \<Rightarrow> propagate' s2) = Some sa"
        unfolding s1_def lit_def by (simp add: Let_def split: if_splits)
      then obtain r2 s2 where
        va: "visit_all lit 0 (length (watched s1 (- lit))) s1 (watched s1 (- lit)) = Some (r2, s2)"
        by (auto split: option.splits)
      from sign_consistent_visit_all [OF s1c va] have s2c: "sign_consistent s2" .
      show ?thesis
      proof (cases r2)
        case None
        with body' va have "propagate' s2 = Some sa" by simp
        from IH [OF this] s2c show ?thesis by simp
      next
        case (Some c)
        with body' va have "snd sa = s2" by auto
        with s2c show ?thesis by simp
      qed
    qed
  qed
qed

lemma sign_consistent_propagate:
  "sign_consistent s \<Longrightarrow> propagate s = Some (r, s') \<Longrightarrow> sign_consistent s'"
  using sign_consistent_propagate_aux [of s "(r, s')"] by simp

lemma sign_consistent_decide:
  assumes "sign_consistent s" and "decide s = Some s'" shows "sign_consistent s'"
proof -
  from assms(2) obtain v where
    s': "s' = assign v None
                 (s\<lparr>decisions := decisions s + 1, searched := v, level := level s + 1,
                    control := control s @ [length (trail s)],
                    stamped := (stamped s)(v := 0)\<rparr>)"
    by (auto simp: decide_def split: option.splits)
  have "sign_consistent (s\<lparr>decisions := decisions s + 1, searched := v, level := level s + 1,
                    control := control s @ [length (trail s)],
                    stamped := (stamped s)(v := 0)\<rparr>)"
    by (rule sign_consistent_frame [OF _ _ assms(1)]) simp_all
  then show ?thesis unfolding s' by (rule sign_consistent_assign)
qed

lemma values_unassign_all_frame [simp]: "variables (unassign_all ls s) = variables s"
  by (induction ls arbitrary: s) simp_all

lemma sign_consistent_backtrack:
  assumes "sign_consistent s" and "backtrack k s = Some s'" shows "sign_consistent s'"
proof -
  from assms(2) obtain b where
    s': "s' = (unassign_all (rev (drop b (trail s))) s)
                     \<lparr>trail := take b (trail s), control := take k (control s),
                      propagated := b, level := k\<rparr>"
    by (auto simp: backtrack_def Let_def split: if_splits)
  show ?thesis unfolding s'
    by (rule sign_consistent_frame [OF _ _ sign_consistent_unassign_all [OF assms(1)]]) simp_all
qed


lemma values_add_clause:
  "values (add_clause lits s) = values s
   \<or> values (add_clause lits s) = values (assign (lits ! 0) None s)"
  unfolding add_clause_def fold_connect_literal
  by (simp add: Let_def watch_push_def assign_def)

lemma variables_add_clause [simp]: "variables (add_clause lits s) = variables s"
  unfolding add_clause_def fold_connect_literal
  by (simp add: Let_def watch_push_def assign_def)

lemma sign_consistent_add_clause:
  assumes "sign_consistent s" shows "sign_consistent (add_clause lits s)"
  using values_add_clause [of lits s]
proof
  assume "values (add_clause lits s) = values s"
  then show ?thesis by (rule sign_consistent_frame [OF _ _ assms]) simp
next
  assume "values (add_clause lits s) = values (assign (lits ! 0) None s)"
  then show ?thesis
    by (rule sign_consistent_frame [OF _ _ sign_consistent_assign [OF assms]]) simp
qed

lemma restamp_refl [simp]: "restamp s s"
  unfolding restamp_def by (rule exI [of _ "stamped s"]) simp

lemma restamp_trans: "restamp s s1 \<Longrightarrow> restamp s1 s2 \<Longrightarrow> restamp s s2"
  unfolding restamp_def by auto

lemma restamp_upd [simp]: "restamp s (s\<lparr>stamped := f\<rparr>)"
  unfolding restamp_def by blast


lemma restamp_fields:
  assumes "restamp s s'"
  shows "values s' = values s" "variables s' = variables s" "trail s' = trail s"
    "levels s' = levels s" "reasons s' = reasons s" "heap s' = heap s"
    "control s' = control s" "level s' = level s" "conflicts s' = conflicts s"
    "watched s' = watched s" "searched s' = searched s" "added s' = added s"
    "backjumps s' = backjumps s" "clauses s' = clauses s" "propagated s' = propagated s"
proof -
  from assms obtain f where "s' = s\<lparr>stamped := f\<rparr>" unfolding restamp_def by blast
  then show "values s' = values s" "variables s' = variables s" "trail s' = trail s"
    "levels s' = levels s" "reasons s' = reasons s" "heap s' = heap s"
    "control s' = control s" "level s' = level s" "conflicts s' = conflicts s"
    "watched s' = watched s" "searched s' = searched s" "added s' = added s"
    "backjumps s' = backjumps s" "clauses s' = clauses s" "propagated s' = propagated s"
    by simp_all
qed

lemma restamp_analyze_literal:
  "analyze_literal lit (s, cur, low) = (s', cur', low') \<Longrightarrow> restamp s s'"
  by (auto simp: analyze_literal_def Let_def split: if_splits)

lemma restamp_fold_analyze_literal:
  "fold analyze_literal ls (s, cur, low) = (s', cur', low') \<Longrightarrow> restamp s s'"
proof (induction ls arbitrary: s cur low)
  case Nil
  then show ?case by simp
next
  case (Cons l ls)
  obtain s1 c1 l1 where a: "analyze_literal l (s, cur, low) = (s1, c1, l1)"
    by (cases "analyze_literal l (s, cur, low)") auto
  with Cons.prems have "fold analyze_literal ls (s1, c1, l1) = (s', cur', low')" by simp
  from Cons.IH [OF this] restamp_analyze_literal [OF a] show ?case
    by (blast intro: restamp_trans)
qed

lemma restamp_analyze_clause:
  "analyze_clause c (s, cur, low) = (s', cur', low') \<Longrightarrow> restamp s s'"
  unfolding analyze_clause_def by (simp add: restamp_fold_analyze_literal)

lemma restamp_resolve_loop:
  "resolve_loop k (s, cur, low) = Some (k', s', cur', low') \<Longrightarrow> restamp s s'"
proof (induction k arbitrary: s cur low)
  case 0
  then show ?case by (auto split: if_splits)
next
  case (Suc k)
  show ?case
  proof (cases "cur > 1")
    case False
    with Suc.prems show ?thesis by simp
  next
    case True
    show ?thesis
    proof (cases "stamped s \<bar>trail s ! k\<bar> = conflicts s")
      case False
      with True Suc.prems have "resolve_loop k (s, cur, low) = Some (k', s', cur', low')"
        by (simp add: Let_def)
      from Suc.IH [OF this] show ?thesis .
    next
      case st: True
      obtain s1 c1 l1 where a: "(case reasons s \<bar>trail s ! k\<bar> of
                    None \<Rightarrow> (s, cur, low)
                  | Some reason \<Rightarrow> analyze_clause reason (s, cur, low)) = (s1, c1, l1)"
        by (cases "(case reasons s \<bar>trail s ! k\<bar> of
                    None \<Rightarrow> (s, cur, low)
                  | Some reason \<Rightarrow> analyze_clause reason (s, cur, low))") auto
      then have r1: "restamp s s1"
        by (auto split: option.splits dest: restamp_analyze_clause)
      from True st a Suc.prems have "resolve_loop k (s1, c1 - 1, l1) = Some (k', s', cur', low')"
        by (simp add: Let_def)
      from Suc.IH [OF this] r1 show ?thesis by (blast intro: restamp_trans)
    qed
  qed
qed

lemma restamp_analyze_conflict:
  assumes "analyze_conflict c s = Some (s2, uip, learned0, learned1, b)"
  shows "restamp s s2"
proof -
  obtain s1 cur low where a: "analyze_clause c (s, 0, 0) = (s1, cur, low)"
    by (cases "analyze_clause c (s, 0, 0)") auto
  with assms obtain k1 cur2 low2 where
    r: "resolve_loop (length (trail s1)) (s1, cur, low) = Some (k1, s2, cur2, low2)"
    by (auto simp: analyze_conflict_def split: option.splits)
  from restamp_analyze_clause [OF a] restamp_resolve_loop [OF r] show ?thesis
    by (rule restamp_trans)
qed



lemma analyze_eq:
  "analyze c s =
     (case analyze_conflict c s of
        None \<Rightarrow> None
      | Some (s2, uip, learned0, learned1, backjump) \<Rightarrow>
          (case backtrack backjump s2 of
             None \<Rightarrow> None
           | Some s3 \<Rightarrow>
               Some (if int backjump < (int (level (learn_and_assign uip learned1 s3)) - 1) mod 2 ^ 32
                     then (learn_and_assign uip learned1 s3)
                            \<lparr>backjumps := backjumps (learn_and_assign uip learned1 s3) + 1\<rparr>
                     else learn_and_assign uip learned1 s3)))"
  unfolding analyze_def learn_and_assign_def Let_def by (rule refl)

lemma analyze_result:
  assumes "analyze c s = Some s'"
  obtains s2 uip learned0 learned1 b s3 where
    "analyze_conflict c s = Some (s2, uip, learned0, learned1, b)"
    "backtrack b s2 = Some s3"
    "s' = learn_and_assign uip learned1 s3
     \<or> s' = (learn_and_assign uip learned1 s3)
              \<lparr>backjumps := backjumps (learn_and_assign uip learned1 s3) + 1\<rparr>"
proof -
  from assms obtain s2 uip learned0 learned1 b where
    ac: "analyze_conflict c s = Some (s2, uip, learned0, learned1, b)"
    by (cases "analyze_conflict c s") (auto simp: analyze_eq)
  with assms obtain s3 where bt: "backtrack b s2 = Some s3"
    by (cases "backtrack b s2") (auto simp: analyze_eq)
  from assms have "s' = learn_and_assign uip learned1 s3
     \<or> s' = (learn_and_assign uip learned1 s3)
              \<lparr>backjumps := backjumps (learn_and_assign uip learned1 s3) + 1\<rparr>"
    by (simp only: analyze_eq ac bt option.case prod.case option.inject split: if_splits) blast+
  with ac bt show ?thesis by (rule that)
qed


lemma sign_consistent_learn_and_assign:
  "sign_consistent s \<Longrightarrow> sign_consistent (learn_and_assign uip learned1 s)"
  unfolding learn_and_assign_def
  by (simp add: sign_consistent_assign sign_consistent_add_clause del: length_append)

lemma sign_consistent_analyze:
  assumes "sign_consistent s" and "analyze c s = Some s'"
  shows "sign_consistent s'"
proof -
  from assms(2) obtain s2 uip learned0 learned1 b s3 where
    ac: "analyze_conflict c s = Some (s2, uip, learned0, learned1, b)"
    and bt: "backtrack b s2 = Some s3"
    and s': "s' = learn_and_assign uip learned1 s3
     \<or> s' = (learn_and_assign uip learned1 s3)
              \<lparr>backjumps := backjumps (learn_and_assign uip learned1 s3) + 1\<rparr>"
    by (rule analyze_result)
  from restamp_fields(1,2) [OF restamp_analyze_conflict [OF ac]]
  have "sign_consistent s2" by (rule sign_consistent_frame [OF _ _ assms(1)])
  from sign_consistent_backtrack [OF this bt] have s3: "sign_consistent s3" .
  then have s4: "sign_consistent (learn_and_assign uip learned1 s3)"
    by (rule sign_consistent_learn_and_assign)
  have "sign_consistent ((learn_and_assign uip learned1 s3)
              \<lparr>backjumps := backjumps (learn_and_assign uip learned1 s3) + 1\<rparr>)"
    by (rule sign_consistent_frame [OF _ _ s4]) simp_all
  with s4 s' show ?thesis by blast
qed

lemma sign_consistent_initialize: "sign_consistent (initialize n lim)"
  unfolding sign_consistent_def by (simp add: initialize_def)


section \<open>One clause visit of the propagator\<close>

lemma same_but_blocker_refl [simp]: "same_but_blocker c s s"
  unfolding same_but_blocker_def set_blocker_def
  by (rule exI [of _ "blocker (heap s c)"]) simp

lemma same_but_blocker_trans:
  "same_but_blocker c s s1 \<Longrightarrow> same_but_blocker c s1 s2 \<Longrightarrow> same_but_blocker c s s2"
  unfolding same_but_blocker_def set_blocker_def by auto

lemma same_but_blocker_set [simp]: "same_but_blocker c s (set_blocker c b s)"
  unfolding same_but_blocker_def by blast

lemma same_but_blocker_step [simp]: "same_but_blocker c s (blocker_step c other s)"
  unfolding blocker_step_def by simp

lemma same_but_blocker_fold [simp]: "same_but_blocker c s (fold (blocker_step c) ls s)"
proof (induction ls arbitrary: s)
  case Nil
  show ?case by simp
next
  case (Cons l ls)
  have "same_but_blocker c s (blocker_step c l s)" by simp
  from same_but_blocker_trans [OF this Cons.IH] show ?case by simp
qed

lemma same_but_blocker_fields:
  assumes "same_but_blocker c s s'"
  shows "values s' = values s" "watched s' = watched s" "trail s' = trail s"
    "watch1 (heap s' c') = watch1 (heap s c')" "watch2 (heap s' c') = watch2 (heap s c')"
    "literals (heap s' c') = literals (heap s c')" "c' \<noteq> c \<Longrightarrow> heap s' c' = heap s c'"
    "conflicts s' = conflicts s" "levels s' = levels s" "reasons s' = reasons s"
    "level s' = level s" "control s' = control s" "variables s' = variables s"
    "propagated s' = propagated s" "searched s' = searched s" "stamped s' = stamped s"
    "added s' = added s"
proof -
  from assms obtain b where s': "s' = set_blocker c b s"
    unfolding same_but_blocker_def by blast
  show "values s' = values s" "watched s' = watched s" "trail s' = trail s"
    "watch1 (heap s' c') = watch1 (heap s c')" "watch2 (heap s' c') = watch2 (heap s c')"
    "literals (heap s' c') = literals (heap s c')" "c' \<noteq> c \<Longrightarrow> heap s' c' = heap s c'"
    "conflicts s' = conflicts s" "levels s' = levels s" "reasons s' = reasons s"
    "level s' = level s" "control s' = control s" "variables s' = variables s"
    "propagated s' = propagated s" "searched s' = searched s" "stamped s' = stamped s"
    "added s' = added s"
    unfolding s' set_blocker_def by simp_all
qed

lemma replaces_same_but_blocker:
  "same_but_blocker c s s' \<Longrightarrow> replaces s' c other = replaces s c other"
  unfolding replaces_def by (simp add: same_but_blocker_fields)

lemma scan_Cons:
  "scan lit c check (other # rest) (found, s, buf) =
     (if \<not> found \<and> replaces (blocker_step c other s) c other
      then (if other = - lit then None
            else scan lit c check rest
                   (True, move_watch lit c check other (blocker_step c other s),
                    compact (watched (move_watch lit c check other (blocker_step c other s)) (- lit)) buf))
      else scan lit c check rest (found, blocker_step c other s, buf))"
  by (simp add: blocker_step_def replaces_def Let_def)

lemma replaces_blocker_step [simp]:
  "replaces (blocker_step c other s) c x = replaces s c x"
  by (rule replaces_same_but_blocker) simp

lemma replaces_fold_blocker_step [simp]:
  "replaces (fold (blocker_step c) ls s) c x = replaces s c x"
  by (rule replaces_same_but_blocker) simp

lemma scan_after_found:
  "scan lit c check ls (True, s, buf) = Some (True, fold (blocker_step c) ls s, buf)"
  by (induction ls arbitrary: s) (simp_all add: scan_Cons del: scan.simps(2))

lemma scan_none_replaces:
  "\<forall>x\<in>set ls. \<not> replaces s c x \<Longrightarrow>
   scan lit c check ls (False, s, buf) = Some (False, fold (blocker_step c) ls s, buf)"
proof (induction ls arbitrary: s)
  case Nil
  show ?case by simp
next
  case (Cons l ls)
  from Cons.prems have "\<forall>x\<in>set ls. \<not> replaces (blocker_step c l s) c x" by simp
  from Cons.IH [OF this] Cons.prems show ?case
    by (simp add: scan_Cons del: scan.simps(2))
qed

lemma watched_move_watch:
  "other \<noteq> - lit \<Longrightarrow>
   watched (move_watch lit c check other s) =
     (watched s)(- lit := removeAll c (watched s (- lit)), other := watched s other @ [c])"
  by (simp add: move_watch_def Let_def watch_push_def set_watch1_def set_watch2_def)

lemma scan_first_replaces:
  assumes "\<forall>y\<in>set pre. \<not> replaces s c y" and "replaces s c x" and "x \<noteq> - lit"
  shows "scan lit c check (pre @ x # post) (False, s, buf) =
     Some (True,
           fold (blocker_step c) post
             (move_watch lit c check x (fold (blocker_step c) (pre @ [x]) s)),
           compact (removeAll c (watched s (- lit))) buf)"
  using assms(1,2)
proof (induction pre arbitrary: s)
  case Nil
  have w: "watched (blocker_step c x s) = watched s"
    by (rule same_but_blocker_fields [of c]) simp
  from Nil assms(3) show ?case
    by (simp add: scan_Cons scan_after_found watched_move_watch w del: scan.simps(2))
next
  case (Cons l pre)
  have w: "watched (blocker_step c l s) = watched s"
    by (rule same_but_blocker_fields [of c]) simp
  from Cons.prems have "\<forall>y\<in>set pre. \<not> replaces (blocker_step c l s) c y"
    and "replaces (blocker_step c l s) c x" by simp_all
  from Cons.IH [OF this] Cons.prems show ?case
    by (simp add: scan_Cons w del: scan.simps(2))
qed

lemma find_Some_split:
  "find P xs = Some x \<Longrightarrow> \<exists>ys zs. xs = ys @ x # zs \<and> P x \<and> (\<forall>y\<in>set ys. \<not> P y)"
proof (induction xs)
  case Nil
  then show ?case by simp
next
  case (Cons a xs)
  show ?case
  proof (cases "P a")
    case True
    with Cons.prems have "a = x" by simp
    with True have "a # xs = [] @ x # xs \<and> P x \<and> (\<forall>y\<in>set []. \<not> P y)" by simp
    then show ?thesis by blast
  next
    case False
    with Cons.prems have "find P xs = Some x" by simp
    from Cons.IH [OF this] obtain ys zs where "xs = ys @ x # zs" "P x" "\<forall>y\<in>set ys. \<not> P y"
      by blast
    with False have "a # xs = (a # ys) @ x # zs \<and> P x \<and> (\<forall>y\<in>set (a # ys). \<not> P y)" by simp
    then show ?thesis by blast
  qed
qed

lemma visit_eq:
  "visit lit c s buf =
     (if values s (blocker (heap s c)) = 1 then Some (None, s, buf)
      else if values s (other_watch s lit c) = 1 then Some (None, s, buf)
        else case scan lit c (other_watch s lit c) (literals (heap s c)) (False, s, buf) of
               None \<Rightarrow> None
             | Some (found, s1, buf1) \<Rightarrow>
                 if \<not> found then
                   (if values s1 (other_watch s lit c) = - 1
                    then Some (Some c, s1\<lparr>conflicts := conflicts s1 + 1\<rparr>, buf1)
                    else if values s1 (other_watch s lit c) = 0
                    then Some (None, assign (other_watch s lit c) (Some c) s1, buf1)
                    else Some (None, s1, buf1))
                 else Some (None, s1, buf1))"
  unfolding visit_def other_watch_def Let_def by (rule refl)

lemma visit_satisfied:
  "values s (blocker (heap s c)) = 1 \<or> values s (other_watch s lit c) = 1 \<Longrightarrow>
   visit lit c s buf = Some (None, s, buf)"
  by (auto simp: visit_eq)

lemma visit_replacement:
  assumes "values s (blocker (heap s c)) \<noteq> 1" and "values s (other_watch s lit c) \<noteq> 1"
    and "replacement s c = Some x" and "x \<noteq> - lit"
  shows "\<exists>s1 s'. same_but_blocker c s s1
           \<and> same_but_blocker c (move_watch lit c (other_watch s lit c) x s1) s'
           \<and> visit lit c s buf = Some (None, s', compact (removeAll c (watched s (- lit))) buf)"
proof -
  from find_Some_split [OF assms(3) [unfolded replacement_def]] obtain pre post where
    ls: "literals (heap s c) = pre @ x # post" and px: "replaces s c x"
    and npre: "\<forall>y\<in>set pre. \<not> replaces s c y"
    by blast
  let ?s1 = "fold (blocker_step c) (pre @ [x]) s"
  let ?s' = "fold (blocker_step c) post (move_watch lit c (other_watch s lit c) x ?s1)"
  from scan_first_replaces [OF npre px assms(4)] ls
  have "scan lit c (other_watch s lit c) (literals (heap s c)) (False, s, buf) =
     Some (True, ?s', compact (removeAll c (watched s (- lit))) buf)"
    by simp
  with assms(1,2) have "visit lit c s buf = Some (None, ?s', compact (removeAll c (watched s (- lit))) buf)"
    by (simp add: visit_eq)
  moreover have "same_but_blocker c s ?s1" by (rule same_but_blocker_fold)
  moreover have "same_but_blocker c (move_watch lit c (other_watch s lit c) x ?s1) ?s'"
    by (rule same_but_blocker_fold)
  ultimately show ?thesis by blast
qed

lemma visit_no_replacement:
  assumes "values s (blocker (heap s c)) \<noteq> 1" and "values s (other_watch s lit c) \<noteq> 1"
    and "replacement s c = None"
  shows "\<exists>s1. same_but_blocker c s s1
           \<and> visit lit c s buf =
               (if values s (other_watch s lit c) = - 1
                then Some (Some c, s1\<lparr>conflicts := conflicts s1 + 1\<rparr>, buf)
                else if values s (other_watch s lit c) = 0
                then Some (None, assign (other_watch s lit c) (Some c) s1, buf)
                else Some (None, s1, buf))"
proof -
  let ?s1 = "fold (blocker_step c) (literals (heap s c)) s"
  from assms(3) have "\<forall>y\<in>set (literals (heap s c)). \<not> replaces s c y"
    by (simp add: replacement_def find_None_iff)
  from scan_none_replaces [OF this]
  have sc: "scan lit c (other_watch s lit c) (literals (heap s c)) (False, s, buf) =
      Some (False, ?s1, buf)" .
  have sb: "same_but_blocker c s ?s1" by (rule same_but_blocker_fold)
  from same_but_blocker_fields(1) [OF sb] have v: "values ?s1 = values s" .
  from assms(1,2) have "visit lit c s buf =
               (if values s (other_watch s lit c) = - 1
                then Some (Some c, ?s1\<lparr>conflicts := conflicts ?s1 + 1\<rparr>, buf)
                else if values s (other_watch s lit c) = 0
                then Some (None, assign (other_watch s lit c) (Some c) ?s1, buf)
                else Some (None, ?s1, buf))"
    by (simp add: visit_eq sc v)
  with sb show ?thesis by blast
qed

lemma scan_first_replaces_undefined:
  assumes "\<forall>y\<in>set pre. \<not> replaces s c y" and "replaces s c (- lit)"
  shows "scan lit c check (pre @ (- lit) # post) (False, s, buf) = None"
  using assms
proof (induction pre arbitrary: s)
  case Nil
  then show ?case by (simp add: scan_Cons del: scan.simps(2))
next
  case (Cons l pre)
  from Cons.prems have "\<forall>y\<in>set pre. \<not> replaces (blocker_step c l s) c y"
    and "replaces (blocker_step c l s) c (- lit)" by simp_all
  from Cons.IH [OF this] Cons.prems show ?case
    by (simp add: scan_Cons del: scan.simps(2))
qed

lemma visit_replacement_undefined:
  assumes "values s (blocker (heap s c)) \<noteq> 1" and "values s (other_watch s lit c) \<noteq> 1"
    and "replacement s c = Some (- lit)"
  shows "visit lit c s buf = None"
proof -
  from find_Some_split [OF assms(3) [unfolded replacement_def]] obtain pre post where
    ls: "literals (heap s c) = pre @ (- lit) # post" and px: "replaces s c (- lit)"
    and npre: "\<forall>y\<in>set pre. \<not> replaces s c y"
    by blast
  from scan_first_replaces_undefined [OF npre px] ls assms(1,2) show ?thesis
    by (simp add: visit_eq)
qed

lemma move_watch_heap_other:
  "c' \<noteq> c \<Longrightarrow> heap (move_watch lit c check x s) c' = heap s c'"
  by (simp add: move_watch_def Let_def watch_push_def set_watch1_def set_watch2_def)

lemma move_watch_frame:
  "values (move_watch lit c check x s) = values s"
  "trail (move_watch lit c check x s) = trail s"
  "conflicts (move_watch lit c check x s) = conflicts s"
  "literals (heap (move_watch lit c check x s) c') = literals (heap s c')"
  by (simp_all add: move_watch_def Let_def watch_push_def set_watch1_def set_watch2_def)

lemma move_watch_positions:
  assumes "x \<noteq> watch1 (heap s c)" and "x \<noteq> watch2 (heap s c)"
  shows "watch1 (heap (move_watch lit c (other_watch s lit c) x s) c) =
           (if watch1 (heap s c) = - lit \<and> watch2 (heap s c) \<noteq> - lit then x
            else watch1 (heap s c))"
    and "watch2 (heap (move_watch lit c (other_watch s lit c) x s) c) =
           (if watch1 (heap s c) = - lit \<and> watch2 (heap s c) \<noteq> - lit then watch2 (heap s c)
            else x)"
proof -
  consider (a) "watch1 (heap s c) = - lit" "watch2 (heap s c) = - lit"
    | (b) "watch1 (heap s c) = - lit" "watch2 (heap s c) \<noteq> - lit"
    | (c) "watch1 (heap s c) \<noteq> - lit"
    by blast
  then have "watch1 (heap (move_watch lit c (other_watch s lit c) x s) c) =
           (if watch1 (heap s c) = - lit \<and> watch2 (heap s c) \<noteq> - lit then x
            else watch1 (heap s c))
     \<and> watch2 (heap (move_watch lit c (other_watch s lit c) x s) c) =
           (if watch1 (heap s c) = - lit \<and> watch2 (heap s c) \<noteq> - lit then watch2 (heap s c)
            else x)"
  proof cases
    case a
    with assms show ?thesis
      by (simp add: move_watch_def other_watch_def Let_def watch_push_def set_watch1_def
          set_watch2_def)
  next
    case b
    with assms show ?thesis
      by (simp add: move_watch_def other_watch_def Let_def watch_push_def set_watch1_def
          set_watch2_def)
  next
    case c
    with assms show ?thesis
      by (simp add: move_watch_def other_watch_def Let_def watch_push_def set_watch1_def
          set_watch2_def)
  qed
  then show "watch1 (heap (move_watch lit c (other_watch s lit c) x s) c) =
           (if watch1 (heap s c) = - lit \<and> watch2 (heap s c) \<noteq> - lit then x
            else watch1 (heap s c))"
    and "watch2 (heap (move_watch lit c (other_watch s lit c) x s) c) =
           (if watch1 (heap s c) = - lit \<and> watch2 (heap s c) \<noteq> - lit then watch2 (heap s c)
            else x)"
    by blast+
qed

lemma visit_all_step:
  assumes "i < n" and "visit lit (buf ! i) s buf = Some (r, s', buf')"
  shows "visit_all lit i n s buf =
     (case r of Some c \<Rightarrow> Some (Some c, s') | None \<Rightarrow> visit_all lit (i + 1) n s' buf')"
  using assms by (subst visit_all.simps) (simp split: option.splits)

lemma visit_move:
  assumes H: "watch1 (heap s c) = - lit \<or> watch2 (heap s c) = - lit"
    and nb: "values s (blocker (heap s c)) \<noteq> 1" and nc: "values s (other_watch s lit c) \<noteq> 1"
    and rp: "replacement s c = Some x"
  shows "\<exists>s'. visit lit c s buf = Some (None, s', compact (removeAll c (watched s (- lit))) buf)
     \<and> watched s' = (watched s)(- lit := removeAll c (watched s (- lit)), x := watched s x @ [c])
     \<and> (watch1 (heap s c) = - lit \<and> watch1 (heap s' c) = x \<and> watch2 (heap s' c) = watch2 (heap s c)
        \<or> watch2 (heap s c) = - lit \<and> watch2 (heap s' c) = x \<and> watch1 (heap s' c) = watch1 (heap s c))
     \<and> (\<forall>c'. c' \<noteq> c \<longrightarrow> heap s' c' = heap s c')
     \<and> values s' = values s \<and> trail s' = trail s \<and> conflicts s' = conflicts s"
proof -
  from find_Some_split [OF rp [unfolded replacement_def]] have px: "replaces s c x" by blast
  then have x1: "x \<noteq> watch1 (heap s c)" and x2: "x \<noteq> watch2 (heap s c)"
    and xv: "values s x > - 1"
    by (auto simp: replaces_def)
  with H have xl: "x \<noteq> - lit" by auto
  from visit_replacement [OF nb nc rp xl, of buf] obtain s1 s' where
    b1: "same_but_blocker c s s1"
    and b2: "same_but_blocker c (move_watch lit c (other_watch s lit c) x s1) s'"
    and v: "visit lit c s buf = Some (None, s', compact (removeAll c (watched s (- lit))) buf)"
    by blast
  note f1 = same_but_blocker_fields [OF b1]
  note f2 = same_but_blocker_fields [OF b2]
  have ow: "other_watch s1 lit c = other_watch s lit c"
    by (simp add: other_watch_def f1)
  have w: "watched s' = (watched s)(- lit := removeAll c (watched s (- lit)), x := watched s x @ [c])"
    by (simp add: f2 watched_move_watch [OF xl] f1)
  have p1: "watch1 (heap s' c) = (if watch1 (heap s c) = - lit \<and> watch2 (heap s c) \<noteq> - lit then x
            else watch1 (heap s c))"
    using move_watch_positions(1) [of x s1 c lit] x1 x2 by (simp add: f2 f1 ow)
  have p2: "watch2 (heap s' c) = (if watch1 (heap s c) = - lit \<and> watch2 (heap s c) \<noteq> - lit
            then watch2 (heap s c) else x)"
    using move_watch_positions(2) [of x s1 c lit] x1 x2 by (simp add: f2 f1 ow)
  from H p1 p2 have pos: "watch1 (heap s c) = - lit \<and> watch1 (heap s' c) = x \<and> watch2 (heap s' c) = watch2 (heap s c)
        \<or> watch2 (heap s c) = - lit \<and> watch2 (heap s' c) = x \<and> watch1 (heap s' c) = watch1 (heap s c)"
    by (cases "watch1 (heap s c) = - lit \<and> watch2 (heap s c) \<noteq> - lit") auto
  have oth: "\<forall>c'. c' \<noteq> c \<longrightarrow> heap s' c' = heap s c'"
    by (simp add: f2 move_watch_heap_other f1)
  have fr: "values s' = values s" "trail s' = trail s" "conflicts s' = conflicts s"
    by (simp_all add: f2 move_watch_frame f1)
  from v w pos oth fr show ?thesis by blast
qed


lemma visit_conflict:
  assumes nb: "values s (blocker (heap s c)) \<noteq> 1"
    and rp: "replacement s c = None" and cv: "values s (other_watch s lit c) = - 1"
  shows "\<exists>s'. visit lit c s buf = Some (Some c, s', buf)
     \<and> watched s' = watched s
     \<and> watch1 (heap s' c) = watch1 (heap s c) \<and> watch2 (heap s' c) = watch2 (heap s c)
     \<and> (\<forall>c'. c' \<noteq> c \<longrightarrow> heap s' c' = heap s c')
     \<and> values s' = values s \<and> trail s' = trail s \<and> conflicts s' = conflicts s + 1"
proof -
  from cv have nc: "values s (other_watch s lit c) \<noteq> 1" by simp
  from visit_no_replacement [OF nb nc rp, of buf] cv obtain s1 where
    b1: "same_but_blocker c s s1"
    and v: "visit lit c s buf = Some (Some c, s1\<lparr>conflicts := conflicts s1 + 1\<rparr>, buf)"
    by auto
  note f1 = same_but_blocker_fields [OF b1]
  let ?s' = "s1\<lparr>conflicts := conflicts s1 + 1\<rparr>"
  have "watched ?s' = watched s" "watch1 (heap ?s' c) = watch1 (heap s c)"
    "watch2 (heap ?s' c) = watch2 (heap s c)" "\<forall>c'. c' \<noteq> c \<longrightarrow> heap ?s' c' = heap s c'"
    "values ?s' = values s" "trail ?s' = trail s" "conflicts ?s' = conflicts s + 1"
    by (simp_all add: f1)
  with v show ?thesis by blast
qed

lemma visit_unit:
  assumes nb: "values s (blocker (heap s c)) \<noteq> 1"
    and rp: "replacement s c = None" and cv: "values s (other_watch s lit c) = 0"
  shows "\<exists>s'. visit lit c s buf = Some (None, s', buf)
     \<and> trail s' = trail s @ [other_watch s lit c]
     \<and> reasons s' \<bar>other_watch s lit c\<bar> = Some c
     \<and> levels s' \<bar>other_watch s lit c\<bar> = level s
     \<and> values s' = ((values s)(other_watch s lit c := 1))(- other_watch s lit c := - 1)
     \<and> watched s' = watched s
     \<and> watch1 (heap s' c) = watch1 (heap s c) \<and> watch2 (heap s' c) = watch2 (heap s c)
     \<and> (\<forall>c'. c' \<noteq> c \<longrightarrow> heap s' c' = heap s c')
     \<and> conflicts s' = conflicts s"
proof -
  from cv have nc: "values s (other_watch s lit c) \<noteq> 1" by simp
  from visit_no_replacement [OF nb nc rp, of buf] cv obtain s1 where
    b1: "same_but_blocker c s s1"
    and v: "visit lit c s buf = Some (None, assign (other_watch s lit c) (Some c) s1, buf)"
    by auto
  note f1 = same_but_blocker_fields [OF b1]
  let ?s' = "assign (other_watch s lit c) (Some c) s1"
  have "trail ?s' = trail s @ [other_watch s lit c]"
    "reasons ?s' \<bar>other_watch s lit c\<bar> = Some c"
    "levels ?s' \<bar>other_watch s lit c\<bar> = level s"
    "values ?s' = ((values s)(other_watch s lit c := 1))(- other_watch s lit c := - 1)"
    "watched ?s' = watched s" "watch1 (heap ?s' c) = watch1 (heap s c)"
    "watch2 (heap ?s' c) = watch2 (heap s c)" "\<forall>c'. c' \<noteq> c \<longrightarrow> heap ?s' c' = heap s c'"
    "conflicts ?s' = conflicts s"
    by (simp_all add: assign_def f1)
  with v show ?thesis by blast
qed

lemma three_valued_initialize: "three_valued (initialize n lim)"
  by (simp add: three_valued_def initialize_def)

lemma three_valued_assign: "three_valued s \<Longrightarrow> three_valued (assign lit r s)"
  unfolding three_valued_def by (simp add: values_assign)

lemma three_valued_add_clause:
  assumes "three_valued s" shows "three_valued (add_clause lits s)"
  using values_add_clause [of lits s]
proof
  assume "values (add_clause lits s) = values s"
  with assms show ?thesis by (simp add: three_valued_def)
next
  assume "values (add_clause lits s) = values (assign (lits ! 0) None s)"
  with three_valued_assign [OF assms, of "lits ! 0" None] show ?thesis
    by (simp add: three_valued_def)
qed

lemma other_watch_cases:
  "other_watch s lit c = watch1 (heap s c) \<or> other_watch s lit c = watch2 (heap s c)"
  by (simp add: other_watch_def)


section \<open>Minimization of the learned clause\<close>

lemma redundant_mono: "redundant s L l \<Longrightarrow> set L \<subseteq> set L0 \<Longrightarrow> redundant s L0 l"
  unfolding redundant_def by blast

lemma minimize_step_eq:
  "minimize_step s lit L = (if redundant s L lit then removeAll lit L else L)"
  by (auto simp: minimize_step_def redundant_def list_all_iff
      split: option.splits)

lemma minimize_loop_removes:
  "set L \<subseteq> set L0 \<Longrightarrow> (\<forall>l\<in>set L0. l \<notin> set L \<longrightarrow> redundant s L0 l) \<Longrightarrow>
   set (minimize_loop s i n buf L) \<subseteq> set L0
   \<and> (\<forall>l\<in>set L0. l \<notin> set (minimize_loop s i n buf L) \<longrightarrow> redundant s L0 l)"
proof (induction s i n buf L rule: minimize_loop.induct)
  case (1 s i n buf L)
  show ?case
  proof (cases "i < n")
    case False
    with "1.prems" show ?thesis by (simp add: minimize_loop.simps)
  next
    case True
    define L1 where "L1 = minimize_step s (buf ! i) L"
    have sub: "set L1 \<subseteq> set L0"
      using "1.prems"(1) by (auto simp: L1_def minimize_step_eq)
    have rem: "\<forall>l\<in>set L0. l \<notin> set L1 \<longrightarrow> redundant s L0 l"
    proof (intro ballI impI)
      fix l assume l: "l \<in> set L0" "l \<notin> set L1"
      show "redundant s L0 l"
      proof (cases "l \<in> set L")
        case False
        with l "1.prems"(2) show ?thesis by blast
      next
        case True
        with l(2) have "redundant s L (buf ! i)" and "l = buf ! i"
          by (auto simp: L1_def minimize_step_eq split: if_splits)
        with "1.prems"(1) show ?thesis by (auto intro: redundant_mono)
      qed
    qed
    from "1.IH" [OF True L1_def sub rem] True show ?thesis
      by (subst minimize_loop.simps, subst (2) minimize_loop.simps) (simp add: Let_def L1_def)
  qed
qed

lemma minimize_removes:
  "set (minimize s L) \<subseteq> set L
   \<and> (\<forall>l\<in>set L. l \<notin> set (minimize s L) \<longrightarrow> redundant s L l)"
  unfolding minimize_def by (rule minimize_loop_removes) simp_all


lemma unassign_all_frame [simp]:
  "added (unassign_all ls s) = added s" "heap (unassign_all ls s) = heap s"
  by (induction ls arbitrary: s) (simp_all add: unassign_def)

lemma backtrack_frame:
  "backtrack b s = Some s' \<Longrightarrow> added s' = added s \<and> heap s' = heap s"
  by (auto simp: backtrack_def Let_def split: if_splits)

lemma literals_add_clause: "literals (heap (add_clause lits s) (added s)) = lits"
  unfolding add_clause_def fold_connect_literal
  by (simp add: Let_def watch_push_def assign_def new_clause_def)

lemma heap_assign [simp]: "heap (assign lit r s) = heap s"
  by (simp add: assign_def)

lemma literals_learn_and_assign:
  "L \<noteq> [] \<Longrightarrow> literals (heap (learn_and_assign uip L s) (added s)) = L @ [- uip]"
  unfolding learn_and_assign_def by (simp add: literals_add_clause)

lemma analyze_conflict_minimize:
  "analyze_conflict c s0 = Some (s, uip, learned, learned1, b) \<Longrightarrow> learned1 = minimize s learned"
  by (auto simp: analyze_conflict_def split: prod.splits option.splits)

lemma analyze_stores_learned:
  assumes ac: "analyze_conflict c s0 = Some (s, uip, learned, learned1, b)"
    and an: "analyze c s0 = Some s'" and ne: "learned1 \<noteq> []"
  shows "literals (heap s' (added s0)) = learned1 @ [- uip]"
proof -
  from an obtain s2 uip' l0 l1 b' s3 where
    ac': "analyze_conflict c s0 = Some (s2, uip', l0, l1, b')" and bt: "backtrack b' s2 = Some s3"
    and s': "s' = learn_and_assign uip' l1 s3
     \<or> s' = (learn_and_assign uip' l1 s3)
              \<lparr>backjumps := backjumps (learn_and_assign uip' l1 s3) + 1\<rparr>"
    by (rule analyze_result)
  from ac ac' have eq: "s2 = s" "uip' = uip" "l1 = learned1" "b' = b" by simp_all
  from restamp_fields(12) [OF restamp_analyze_conflict [OF ac]] have a2: "added s = added s0" .
  from backtrack_frame [OF bt] eq a2 have a3: "added s3 = added s0" by simp
  from literals_learn_and_assign [OF ne, of uip s3] a3
  have "literals (heap (learn_and_assign uip learned1 s3) (added s0)) = learned1 @ [- uip]"
    by simp
  with s' eq show ?thesis by auto
qed


section \<open>Well-formed watches, the cursor of the decider, and the states of a run\<close>

lemma add_clause_empty:
  "add_clause [] s = (store_clause [] s)\<lparr>empty_clause := Some (added s)\<rparr>"
  by (simp add: add_clause_def store_clause_def Let_def new_clause_def connected_def)

lemma add_clause_unit_unassigned:
  "values s u = 0 \<Longrightarrow> add_clause [u] s = assign u None (store_clause [u] s)"
  by (simp add: add_clause_def store_clause_def Let_def new_clause_def connect_literal_def
      assign_def connected_def)

lemma add_clause_unit_false:
  "values s u < 0 \<Longrightarrow>
   add_clause [u] s = (store_clause [u] s)\<lparr>empty_clause := Some (added s)\<rparr>"
  by (simp add: add_clause_def store_clause_def Let_def new_clause_def connect_literal_def
      connected_def)

lemma add_clause_unit_true:
  "values s u > 0 \<Longrightarrow> add_clause [u] s = store_clause [u] s"
  by (simp add: add_clause_def store_clause_def Let_def new_clause_def connect_literal_def
      connected_def)

lemma add_clause_watched:
  "a \<noteq> 0 \<Longrightarrow> b \<noteq> 0 \<Longrightarrow>
   add_clause (a # b # rest) s =
     (let c = added s; s1 = store_clause (a # b # rest) s in
      s1\<lparr>heap := (heap s1)(c := (heap s1 c)\<lparr>watch1 := a, watch2 := b\<rparr>),
         watched := watched (watch_push b c (watch_push a c s))\<rparr>)"
  unfolding add_clause_def fold_connect_literal
  by (simp add: store_clause_def Let_def new_clause_def watch_push_def)

lemma visit_result:
  assumes "visit lit c s buf = Some (r, s', buf')"
  shows "(\<exists>s1. same_but_blocker c s s1 \<and> buf' = buf
            \<and> (s' = s1 \<and> r = None
               \<or> s' = s1\<lparr>conflicts := conflicts s1 + 1\<rparr> \<and> r = Some c
               \<or> s' = assign (other_watch s lit c) (Some c) s1 \<and> r = None
                  \<and> values s (other_watch s lit c) = 0))
       \<or> (\<exists>x s1. replaces s c x \<and> x \<in> set (literals (heap s c)) \<and> x \<noteq> - lit \<and> r = None
            \<and> same_but_blocker c s s1
            \<and> same_but_blocker c (move_watch lit c (other_watch s lit c) x s1) s'
            \<and> buf' = compact (removeAll c (watched s (- lit))) buf)"
proof (cases "values s (blocker (heap s c)) = 1 \<or> values s (other_watch s lit c) = 1")
  case True
  from visit_satisfied [OF True, of buf] assms have "s' = s" "r = None" "buf' = buf" by simp_all
  then have "same_but_blocker c s s \<and> buf' = buf \<and> (s' = s \<and> r = None
               \<or> s' = s\<lparr>conflicts := conflicts s + 1\<rparr> \<and> r = Some c
               \<or> s' = assign (other_watch s lit c) (Some c) s \<and> r = None
                  \<and> values s (other_watch s lit c) = 0)" by simp
  then show ?thesis by blast
next
  case False
  then have nb: "values s (blocker (heap s c)) \<noteq> 1"
    and nc: "values s (other_watch s lit c) \<noteq> 1" by simp_all
  show ?thesis
  proof (cases "replacement s c")
    case None
    from visit_no_replacement [OF nb nc None, of buf] obtain s1 where
      b1: "same_but_blocker c s s1"
      and e: "visit lit c s buf =
               (if values s (other_watch s lit c) = - 1
                then Some (Some c, s1\<lparr>conflicts := conflicts s1 + 1\<rparr>, buf)
                else if values s (other_watch s lit c) = 0
                then Some (None, assign (other_watch s lit c) (Some c) s1, buf)
                else Some (None, s1, buf))"
      by blast
    from e assms have "buf' = buf
            \<and> (s' = s1 \<and> r = None
               \<or> s' = s1\<lparr>conflicts := conflicts s1 + 1\<rparr> \<and> r = Some c
               \<or> s' = assign (other_watch s lit c) (Some c) s1 \<and> r = None
                  \<and> values s (other_watch s lit c) = 0)"
      by (simp split: if_splits)
    with b1 show ?thesis by blast
  next
    case (Some x)
    from find_Some_split [OF Some [unfolded replacement_def]]
    have px: "replaces s c x" and xin: "x \<in> set (literals (heap s c))" by auto
    have xl: "x \<noteq> - lit"
    proof
      assume "x = - lit"
      with visit_replacement_undefined [OF nb nc, of buf] Some assms show False by simp
    qed
    from visit_replacement [OF nb nc Some xl, of buf] assms obtain s1 where
      "same_but_blocker c s s1"
      "same_but_blocker c (move_watch lit c (other_watch s lit c) x s1) s'"
      "buf' = compact (removeAll c (watched s (- lit))) buf" "r = None"
      by auto
    with px xin xl show ?thesis by blast
  qed
qed

lemma watch_invariant_frame:
  assumes "watched s' = watched s" "added s' = added s"
    "\<And>c. literals (heap s' c) = literals (heap s c)"
    "\<And>c. watch1 (heap s' c) = watch1 (heap s c)"
    "\<And>c. watch2 (heap s' c) = watch2 (heap s c)"
    and "watch_invariant s"
  shows "watch_invariant s'"
  using assms(6) unfolding watch_invariant_def by (simp add: assms(1-5))

lemma searched_invariant_frame:
  assumes "values s' = values s" "searched s' = searched s" and "searched_invariant s"
  shows "searched_invariant s'"
  using assms(3) unfolding searched_invariant_def by (simp add: assms(1,2))

lemma basic_invariant_frame:
  assumes "values s' = values s" "searched s' = searched s" "trail s' = trail s"
    "watched s' = watched s" "added s' = added s"
    "\<And>c. literals (heap s' c) = literals (heap s c)"
    "\<And>c. watch1 (heap s' c) = watch1 (heap s c)"
    "\<And>c. watch2 (heap s' c) = watch2 (heap s c)"
    and "basic_invariant s"
  shows "basic_invariant s'"
  using assms(9) watch_invariant_frame [OF assms(4-8)]
    searched_invariant_frame [OF assms(1,2)]
  unfolding basic_invariant_def by (simp add: assms(3))

lemma basic_invariant_same_but_blocker:
  "same_but_blocker c s s' \<Longrightarrow> basic_invariant s \<Longrightarrow> basic_invariant s'"
  by (rule basic_invariant_frame) (simp_all add: same_but_blocker_fields [of c])

lemma basic_invariant_restamp:
  "restamp s s' \<Longrightarrow> basic_invariant s \<Longrightarrow> basic_invariant s'"
  by (rule basic_invariant_frame) (simp_all add: restamp_fields)

lemma basic_invariant_initialize: "basic_invariant (initialize n lim)"
  by (simp add: basic_invariant_def watch_invariant_def searched_invariant_def
      initialize_def new_clause_def)

lemma searched_invariant_assign:
  assumes "searched_invariant s" and "lit \<noteq> 0"
  shows "searched_invariant (assign lit r s)"
proof -
  have se: "searched (assign lit r s) = searched s" by (simp add: assign_def)
  from assms(1) have one: "1 \<le> searched s"
    and old: "\<And>u. 1 \<le> u \<Longrightarrow> u < searched s \<Longrightarrow> values s u \<noteq> 0"
    unfolding searched_invariant_def by blast+
  have "values (assign lit r s) u \<noteq> 0" if "1 \<le> u" "u < searched s" for u
    using old [OF that] by (simp add: values_assign)
  with one show ?thesis unfolding searched_invariant_def se by blast
qed

lemma basic_invariant_assign:
  assumes "basic_invariant s" and "lit \<noteq> 0"
  shows "basic_invariant (assign lit r s)"
proof -
  from assms(1) have w: "watch_invariant s" and si: "searched_invariant s"
    and t: "0 \<notin> set (trail s)"
    unfolding basic_invariant_def by blast+
  have "watch_invariant (assign lit r s)"
    by (rule watch_invariant_frame [OF _ _ _ _ _ w]) (simp_all add: assign_def)
  moreover note searched_invariant_assign [OF si assms(2), of r]
  moreover from t assms(2) have "0 \<notin> set (trail (assign lit r s))" by (simp add: assign_def)
  ultimately show ?thesis unfolding basic_invariant_def by blast
qed

lemma searched_invariant_unassign:
  assumes "searched_invariant s" and "lit \<noteq> 0"
  shows "searched_invariant (unassign lit s)"
proof -
  from assms(1) have one: "1 \<le> searched s"
    and old: "\<And>u. 1 \<le> u \<Longrightarrow> u < searched s \<Longrightarrow> values s u \<noteq> 0"
    unfolding searched_invariant_def by blast+
  have se: "searched (unassign lit s) = (if \<bar>lit\<bar> < searched s then \<bar>lit\<bar> else searched s)"
    by (simp add: unassign_def)
  from assms(2) have "1 \<le> \<bar>lit\<bar>" by linarith
  with one have one': "1 \<le> searched (unassign lit s)" unfolding se by simp
  have "values (unassign lit s) u \<noteq> 0" if u: "1 \<le> u" "u < searched (unassign lit s)" for u
  proof -
    from u(2) have lt: "u < searched s" and ul: "u < \<bar>lit\<bar> \<or> \<not> \<bar>lit\<bar> < searched s"
      unfolding se by (simp_all split: if_splits)
    from ul lt u(1) have "u \<noteq> lit" "u \<noteq> - lit" by linarith+
    with old [OF u(1) lt] show ?thesis by (simp add: values_unassign)
  qed
  with one' show ?thesis unfolding searched_invariant_def by blast
qed

lemma basic_invariant_unassign:
  assumes "basic_invariant s" and "lit \<noteq> 0"
  shows "basic_invariant (unassign lit s)"
proof -
  from assms(1) have w: "watch_invariant s" and si: "searched_invariant s"
    and t: "0 \<notin> set (trail s)"
    unfolding basic_invariant_def by blast+
  have "watch_invariant (unassign lit s)"
    by (rule watch_invariant_frame [OF _ _ _ _ _ w]) (simp_all add: unassign_def)
  moreover note searched_invariant_unassign [OF si assms(2)]
  moreover from t have "0 \<notin> set (trail (unassign lit s))" by (simp add: unassign_def)
  ultimately show ?thesis unfolding basic_invariant_def by blast
qed

lemma basic_invariant_unassign_all:
  "basic_invariant s \<Longrightarrow> 0 \<notin> set ls \<Longrightarrow> basic_invariant (unassign_all ls s)"
  by (induction ls arbitrary: s) (simp_all add: basic_invariant_unassign)

lemma trail_unassign_all [simp]: "trail (unassign_all ls s) = trail s"
  by (induction ls arbitrary: s) (simp_all add: unassign_def)

lemma watched_unassign_all [simp]: "watched (unassign_all ls s) = watched s"
  by (induction ls arbitrary: s) (simp_all add: unassign_def)

lemma backtrack_eq:
  assumes "backtrack k s = Some s'"
  shows "k < length (control s)" "control s ! k \<le> length (trail s)"
    "s' = (unassign_all (rev (drop (control s ! k) (trail s))) s)
            \<lparr>trail := take (control s ! k) (trail s), control := take k (control s),
             propagated := control s ! k, level := k\<rparr>"
  using assms by (simp_all add: backtrack_def Let_def split: if_splits)

lemma basic_invariant_backtrack:
  assumes "basic_invariant s" and "backtrack k s = Some s'"
  shows "basic_invariant s'"
proof -
  let ?u = "unassign_all (rev (drop (control s ! k) (trail s))) s"
  note e = backtrack_eq(3) [OF assms(2)]
  from assms(1) have t: "0 \<notin> set (trail s)" unfolding basic_invariant_def by blast
  then have "0 \<notin> set (rev (drop (control s ! k) (trail s)))"
    by (auto dest: in_set_dropD)
  from basic_invariant_unassign_all [OF assms(1) this]
  have u: "basic_invariant ?u" .
  then have w: "watch_invariant ?u" and si: "searched_invariant ?u"
    unfolding basic_invariant_def by blast+
  have "watch_invariant s'"
    by (rule watch_invariant_frame [OF _ _ _ _ _ w]) (simp_all add: e)
  moreover have "searched_invariant s'"
    by (rule searched_invariant_frame [OF _ _ si]) (simp_all add: e)
  moreover from t have "0 \<notin> set (trail s')" by (auto simp: e dest: in_set_takeD)
  ultimately show ?thesis unfolding basic_invariant_def by blast
qed

lemma store_clause_fields [simp]:
  "values (store_clause lits s) = values s" "searched (store_clause lits s) = searched s"
  "trail (store_clause lits s) = trail s" "watched (store_clause lits s) = watched s"
  "added (store_clause lits s) = added s + 1"
  "literals (heap (store_clause lits s) c) = (if c = added s then lits else literals (heap s c))"
  by (simp_all add: store_clause_def new_clause_def)

lemma watch_invariant_store_clause:
  assumes w: "watch_invariant s" and z: "0 \<notin> set lits" and l: "length lits < 2"
  shows "watch_invariant (store_clause lits s)"
proof -
  from w have w1: "\<And>c. 0 \<notin> set (literals (heap s c))"
    and w2: "\<And>c. 2 \<le> length (literals (heap s c)) \<Longrightarrow>
             watch1 (heap s c) \<in> set (literals (heap s c))
             \<and> watch2 (heap s c) \<in> set (literals (heap s c))"
    and w3: "\<And>l c. c \<in> set (watched s l) \<Longrightarrow> 2 \<le> length (literals (heap s c))"
    and w4: "\<And>c. added s \<le> c \<Longrightarrow> literals (heap s c) = []"
    unfolding watch_invariant_def by blast+
  have h: "heap (store_clause lits s) c = heap s c" if "c \<noteq> added s" for c
    using that by (simp add: store_clause_def)
  have "0 \<notin> set (literals (heap (store_clause lits s) c))" for c
    using w1 [of c] z by simp
  moreover have "watch1 (heap (store_clause lits s) c) \<in> set (literals (heap (store_clause lits s) c))
             \<and> watch2 (heap (store_clause lits s) c) \<in> set (literals (heap (store_clause lits s) c))"
    if "2 \<le> length (literals (heap (store_clause lits s) c))" for c
  proof (cases "c = added s")
    case True
    with that l show ?thesis by simp
  next
    case False
    with that w2 [of c] show ?thesis by (simp add: h)
  qed
  moreover have "2 \<le> length (literals (heap (store_clause lits s) c))"
    if "c \<in> set (watched (store_clause lits s) x)" for x c
  proof -
    from that have "c \<in> set (watched s x)" by simp
    from w3 [OF this] have g: "2 \<le> length (literals (heap s c))" .
    with w4 [of c] have "c \<noteq> added s" by auto
    with g show ?thesis by simp
  qed
  moreover have "literals (heap (store_clause lits s) c) = []"
    if "added (store_clause lits s) \<le> c" for c
    using that w4 [of c] by simp
  ultimately show ?thesis unfolding watch_invariant_def by blast
qed

lemma add_clause_watched_fields:
  assumes "a \<noteq> 0" and "b \<noteq> 0"
  shows "values (add_clause (a # b # rest) s) = values s"
    "searched (add_clause (a # b # rest) s) = searched s"
    "trail (add_clause (a # b # rest) s) = trail s"
    "added (add_clause (a # b # rest) s) = added s + 1"
    "literals (heap (add_clause (a # b # rest) s) c) =
       (if c = added s then a # b # rest else literals (heap s c))"
    "watch1 (heap (add_clause (a # b # rest) s) c) = (if c = added s then a else watch1 (heap s c))"
    "watch2 (heap (add_clause (a # b # rest) s) c) = (if c = added s then b else watch2 (heap s c))"
    "set (watched (add_clause (a # b # rest) s) x) \<subseteq> set (watched s x) \<union> {added s}"
    "levels (add_clause (a # b # rest) s) = levels s"
    "control (add_clause (a # b # rest) s) = control s"
    "level (add_clause (a # b # rest) s) = level s"
    "stamped (add_clause (a # b # rest) s) = stamped s"
    "conflicts (add_clause (a # b # rest) s) = conflicts s"
  unfolding add_clause_watched [OF assms]
  by (auto simp: Let_def store_clause_def new_clause_def watch_push_def)

lemma watch_invariant_add_clause_watched:
  assumes w: "watch_invariant s" and a: "a \<noteq> 0" and b: "b \<noteq> 0" and z: "0 \<notin> set rest"
  shows "watch_invariant (add_clause (a # b # rest) s)"
proof -
  note f = add_clause_watched_fields [OF a b]
  let ?s' = "add_clause (a # b # rest) s"
  from w have w1: "\<And>c. 0 \<notin> set (literals (heap s c))"
    and w2: "\<And>c. 2 \<le> length (literals (heap s c)) \<Longrightarrow>
             watch1 (heap s c) \<in> set (literals (heap s c))
             \<and> watch2 (heap s c) \<in> set (literals (heap s c))"
    and w3: "\<And>l c. c \<in> set (watched s l) \<Longrightarrow> 2 \<le> length (literals (heap s c))"
    and w4: "\<And>c. added s \<le> c \<Longrightarrow> literals (heap s c) = []"
    unfolding watch_invariant_def by blast+
  have "0 \<notin> set (literals (heap ?s' c))" for c
    using w1 [of c] z a b by (simp add: f)
  moreover have "watch1 (heap ?s' c) \<in> set (literals (heap ?s' c))
             \<and> watch2 (heap ?s' c) \<in> set (literals (heap ?s' c))"
    if "2 \<le> length (literals (heap ?s' c))" for c
  proof (cases "c = added s")
    case True
    then show ?thesis by (simp add: f)
  next
    case False
    with that w2 [of c] show ?thesis by (simp add: f)
  qed
  moreover have "2 \<le> length (literals (heap ?s' c))" if "c \<in> set (watched ?s' x)" for x c
  proof (cases "c = added s")
    case True
    then show ?thesis by (simp add: f)
  next
    case False
    with that f(8) [of rest s x] have "c \<in> set (watched s x)" by auto
    from w3 [OF this] False show ?thesis by (simp add: f)
  qed
  moreover have "literals (heap ?s' c) = []" if "added ?s' \<le> c" for c
    using that w4 [of c] by (simp add: f)
  ultimately show ?thesis unfolding watch_invariant_def by blast
qed

lemma basic_invariant_store_clause:
  assumes "basic_invariant s" and "0 \<notin> set lits" and "length lits < 2"
  shows "basic_invariant (store_clause lits s)"
proof -
  from assms(1) have w: "watch_invariant s" and si: "searched_invariant s"
    and t: "0 \<notin> set (trail s)"
    unfolding basic_invariant_def by blast+
  note watch_invariant_store_clause [OF w assms(2,3)]
  moreover have "searched_invariant (store_clause lits s)"
    by (rule searched_invariant_frame [OF _ _ si]) simp_all
  moreover from t have "0 \<notin> set (trail (store_clause lits s))" by simp
  ultimately show ?thesis unfolding basic_invariant_def by blast
qed

lemma basic_invariant_empty_clause:
  "basic_invariant s \<Longrightarrow> basic_invariant (s\<lparr>empty_clause := e\<rparr>)"
  by (rule basic_invariant_frame) simp_all

lemma basic_invariant_add_clause:
  assumes bi: "basic_invariant s" and z: "0 \<notin> set lits"
  shows "basic_invariant (add_clause lits s)"
proof -
  consider (empty) "lits = []" | (unit) u where "lits = [u]"
    | (more) a b rest where "lits = a # b # rest"
    by (cases lits rule: list.exhaust [case_product list.exhaust]) (auto, metis list.exhaust)
  then show ?thesis
  proof cases
    case empty
    with basic_invariant_empty_clause [OF basic_invariant_store_clause [OF bi z]]
    show ?thesis by (simp add: add_clause_empty)
  next
    case unit
    with z have u: "u \<noteq> 0" by simp
    from unit have l: "length lits < 2" by simp
    note st = basic_invariant_store_clause [OF bi z l]
    consider "values s u = 0" | "values s u < 0" | "values s u > 0" by linarith
    then show ?thesis
    proof cases
      case 1
      from basic_invariant_assign [OF st u] show ?thesis
        unfolding unit add_clause_unit_unassigned [OF 1] .
    next
      case 2
      from basic_invariant_empty_clause [OF st] show ?thesis
        unfolding unit add_clause_unit_false [OF 2] .
    next
      case 3
      from st show ?thesis unfolding unit add_clause_unit_true [OF 3] .
    qed
  next
    case more
    with z have a: "a \<noteq> 0" and b: "b \<noteq> 0" and r: "0 \<notin> set rest" by auto
    note f = add_clause_watched_fields [OF a b]
    from bi have w: "watch_invariant s" and si: "searched_invariant s"
      and t: "0 \<notin> set (trail s)"
      unfolding basic_invariant_def by blast+
    note watch_invariant_add_clause_watched [OF w a b r]
    moreover have "searched_invariant (add_clause (a # b # rest) s)"
      by (rule searched_invariant_frame [OF _ _ si]) (simp_all add: f)
    moreover from t have "0 \<notin> set (trail (add_clause (a # b # rest) s))" by (simp add: f)
    ultimately show ?thesis unfolding basic_invariant_def more by blast
  qed
qed

lemma move_watch_fields [simp]:
  "searched (move_watch lit c check x s) = searched s"
  "added (move_watch lit c check x s) = added s"
  "levels (move_watch lit c check x s) = levels s"
  "control (move_watch lit c check x s) = control s"
  "level (move_watch lit c check x s) = level s"
  "stamped (move_watch lit c check x s) = stamped s"
  "reasons (move_watch lit c check x s) = reasons s"
  "propagated (move_watch lit c check x s) = propagated s"
  by (simp_all add: move_watch_def Let_def watch_push_def set_watch1_def set_watch2_def)

lemma move_watch_watch1:
  "watch1 (heap (move_watch lit c check x s) c') = watch1 (heap s c')
   \<or> c' = c \<and> watch1 (heap (move_watch lit c check x s) c') = x"
  by (simp add: move_watch_def Let_def watch_push_def set_watch1_def set_watch2_def)

lemma move_watch_watch2:
  "watch2 (heap (move_watch lit c check x s) c') = watch2 (heap s c')
   \<or> c' = c \<and> watch2 (heap (move_watch lit c check x s) c') = x"
  by (simp add: move_watch_def Let_def watch_push_def set_watch1_def set_watch2_def)

lemma watch_invariant_move_watch:
  assumes w: "watch_invariant s" and x: "x \<in> set (literals (heap s c))"
    and l: "2 \<le> length (literals (heap s c))" and xl: "x \<noteq> - lit"
  shows "watch_invariant (move_watch lit c check x s)"
proof -
  let ?s' = "move_watch lit c check x s"
  note lf = move_watch_frame(4) [of lit c check x s]
  from w have w1: "\<And>c. 0 \<notin> set (literals (heap s c))"
    and w2: "\<And>c. 2 \<le> length (literals (heap s c)) \<Longrightarrow>
             watch1 (heap s c) \<in> set (literals (heap s c))
             \<and> watch2 (heap s c) \<in> set (literals (heap s c))"
    and w3: "\<And>l c. c \<in> set (watched s l) \<Longrightarrow> 2 \<le> length (literals (heap s c))"
    and w4: "\<And>c. added s \<le> c \<Longrightarrow> literals (heap s c) = []"
    unfolding watch_invariant_def by blast+
  have "0 \<notin> set (literals (heap ?s' c'))" for c'
    using w1 [of c'] by (simp add: lf)
  moreover have "watch1 (heap ?s' c') \<in> set (literals (heap ?s' c'))
             \<and> watch2 (heap ?s' c') \<in> set (literals (heap ?s' c'))"
    if "2 \<le> length (literals (heap ?s' c'))" for c'
  proof -
    from that have "2 \<le> length (literals (heap s c'))" by (simp add: lf)
    from w2 [OF this] have o: "watch1 (heap s c') \<in> set (literals (heap s c'))"
      "watch2 (heap s c') \<in> set (literals (heap s c'))" by blast+
    from move_watch_watch1 [of lit c check x s c'] o(1) x
    have "watch1 (heap ?s' c') \<in> set (literals (heap s c'))" by auto
    moreover from move_watch_watch2 [of lit c check x s c'] o(2) x
    have "watch2 (heap ?s' c') \<in> set (literals (heap s c'))" by auto
    ultimately show ?thesis by (simp add: lf)
  qed
  moreover have "2 \<le> length (literals (heap ?s' c'))" if "c' \<in> set (watched ?s' y)" for y c'
  proof -
    from that have "c' \<in> set (watched s y) \<or> c' = c"
      by (auto simp: watched_move_watch [OF xl] split: if_splits)
    with w3 [of c' y] l show ?thesis by (auto simp: lf)
  qed
  moreover have "literals (heap ?s' c') = []" if "added ?s' \<le> c'" for c'
    using that w4 [of c'] by (simp add: lf)
  ultimately show ?thesis unfolding watch_invariant_def by blast
qed

lemma basic_invariant_move_watch:
  assumes bi: "basic_invariant s" and x: "x \<in> set (literals (heap s c))"
    and l: "2 \<le> length (literals (heap s c))" and xl: "x \<noteq> - lit"
  shows "basic_invariant (move_watch lit c check x s)"
proof -
  from bi have w: "watch_invariant s" and si: "searched_invariant s"
    and t: "0 \<notin> set (trail s)"
    unfolding basic_invariant_def by blast+
  note watch_invariant_move_watch [OF w x l xl]
  moreover have "searched_invariant (move_watch lit c check x s)"
    by (rule searched_invariant_frame [OF _ _ si]) simp_all
  moreover from t have "0 \<notin> set (trail (move_watch lit c check x s))"
    by (simp add: move_watch_frame)
  ultimately show ?thesis unfolding basic_invariant_def by blast
qed

lemma other_watch_nonzero:
  assumes "watch_invariant s" and "2 \<le> length (literals (heap s c))"
  shows "other_watch s lit c \<noteq> 0"
proof -
  from assms have "watch1 (heap s c) \<in> set (literals (heap s c))"
    "watch2 (heap s c) \<in> set (literals (heap s c))" "0 \<notin> set (literals (heap s c))"
    unfolding watch_invariant_def by blast+
  with other_watch_cases [of s lit c] show ?thesis by metis
qed

lemma visit_frame:
  assumes "visit lit c s buf = Some (r, s', buf')"
  shows "literals (heap s' c') = literals (heap s c')"
    and "buf' = buf \<and> watched s' (- lit) = watched s (- lit)
         \<or> buf' = compact (removeAll c (watched s (- lit))) buf
           \<and> watched s' (- lit) = removeAll c (watched s (- lit))"
proof -
  from visit_result [OF assms]
  have "literals (heap s' c') = literals (heap s c')
    \<and> (buf' = buf \<and> watched s' (- lit) = watched s (- lit)
         \<or> buf' = compact (removeAll c (watched s (- lit))) buf
           \<and> watched s' (- lit) = removeAll c (watched s (- lit)))"
  proof (elim disjE exE conjE)
    fix s1 assume "same_but_blocker c s s1" "buf' = buf" "s' = s1" "r = None"
    then show ?thesis by (simp add: same_but_blocker_fields [of c])
  next
    fix s1 assume "same_but_blocker c s s1" "buf' = buf"
      "s' = s1\<lparr>conflicts := conflicts s1 + 1\<rparr>" "r = Some c"
    then show ?thesis by (simp add: same_but_blocker_fields [of c])
  next
    fix s1 assume "same_but_blocker c s s1" "buf' = buf"
      "s' = assign (other_watch s lit c) (Some c) s1"
    then show ?thesis by (simp add: same_but_blocker_fields [of c] assign_def)
  next
    fix x s1 assume xl: "x \<noteq> - lit" and b1: "same_but_blocker c s s1"
      and b2: "same_but_blocker c (move_watch lit c (other_watch s lit c) x s1) s'"
      and bf: "buf' = compact (removeAll c (watched s (- lit))) buf"
    note f1 = same_but_blocker_fields [OF b1]
    note f2 = same_but_blocker_fields [OF b2]
    from xl have "watched s' (- lit) = removeAll c (watched s (- lit))"
      by (simp add: f2 watched_move_watch [OF xl] f1)
    moreover have "literals (heap s' c') = literals (heap s c')"
      by (simp add: f2 move_watch_frame f1)
    ultimately show ?thesis using bf by blast
  qed
  then show "literals (heap s' c') = literals (heap s c')"
    and "buf' = buf \<and> watched s' (- lit) = watched s (- lit)
         \<or> buf' = compact (removeAll c (watched s (- lit))) buf
           \<and> watched s' (- lit) = removeAll c (watched s (- lit))"
    by blast+
qed

lemma basic_invariant_visit:
  assumes bi: "basic_invariant s" and l: "2 \<le> length (literals (heap s c))"
    and v: "visit lit c s buf = Some (r, s', buf')"
  shows "basic_invariant s'"
  using visit_result [OF v]
proof (elim disjE exE conjE)
  fix s1 assume "same_but_blocker c s s1" "s' = s1"
  with bi show ?thesis by (simp add: basic_invariant_same_but_blocker)
next
  fix s1 assume b1: "same_but_blocker c s s1" and e: "s' = s1\<lparr>conflicts := conflicts s1 + 1\<rparr>"
  show ?thesis unfolding e
    by (rule basic_invariant_frame [OF _ _ _ _ _ _ _ _ basic_invariant_same_but_blocker [OF b1 bi]])
      simp_all
next
  fix s1 assume b1: "same_but_blocker c s s1"
    and e: "s' = assign (other_watch s lit c) (Some c) s1"
  from bi have "watch_invariant s" unfolding basic_invariant_def by blast
  from other_watch_nonzero [OF this l] have "other_watch s lit c \<noteq> 0" .
  from basic_invariant_assign [OF basic_invariant_same_but_blocker [OF b1 bi] this]
  show ?thesis unfolding e .
next
  fix x s1 assume xl: "x \<noteq> - lit" and b1: "same_but_blocker c s s1"
    and xin: "x \<in> set (literals (heap s c))"
    and b2: "same_but_blocker c (move_watch lit c (other_watch s lit c) x s1) s'"
  note f1 = same_but_blocker_fields [OF b1]
  from xin l have "x \<in> set (literals (heap s1 c))" "2 \<le> length (literals (heap s1 c))"
    by (simp_all add: f1)
  from basic_invariant_move_watch [OF basic_invariant_same_but_blocker [OF b1 bi] this xl]
  show ?thesis by (rule basic_invariant_same_but_blocker [OF b2])
qed

lemma length_compact: "length live \<le> length buf \<Longrightarrow> length (compact live buf) = length buf"
  by (simp add: compact_def)

lemma set_compact: "set (compact live buf) \<subseteq> set live \<union> set buf"
  using set_drop_subset [of "length live" buf] by (auto simp: compact_def)

lemma watch_invariant_watched:
  "watch_invariant s \<Longrightarrow> c \<in> set (watched s l) \<Longrightarrow> 2 \<le> length (literals (heap s c))"
  unfolding watch_invariant_def by blast

lemma visit_all_rule:
  assumes W: "\<And>s. P s \<Longrightarrow> watch_invariant s"
    and stepN: "\<And>lit c s buf s' buf'. P s \<Longrightarrow> 2 \<le> length (literals (heap s c)) \<Longrightarrow>
       visit lit c s buf = Some (None, s', buf') \<Longrightarrow> P s'"
    and stepC: "\<And>lit c s buf c' s' buf'. P s \<Longrightarrow> 2 \<le> length (literals (heap s c)) \<Longrightarrow>
       visit lit c s buf = Some (Some c', s', buf') \<Longrightarrow> Q c' s'"
  shows "P s \<Longrightarrow> \<forall>c\<in>set buf. 2 \<le> length (literals (heap s c)) \<Longrightarrow>
     length (watched s (- lit)) \<le> length buf \<Longrightarrow> length buf = n \<Longrightarrow>
     visit_all lit i n s buf = Some (r, s') \<Longrightarrow>
     (case r of None \<Rightarrow> P s' | Some c \<Rightarrow> Q c s')"
proof (induction lit i n s buf rule: visit_all.induct)
  case (1 lit i n s buf)
  note P = "1.prems"(1) and B = "1.prems"(2) and L = "1.prems"(3) and N = "1.prems"(4)
    and V = "1.prems"(5)
  show ?case
  proof (cases "i < n")
    case False
    with V P show ?thesis by (simp add: visit_all.simps)
  next
    case True
    with N have "buf ! i \<in> set buf" by simp
    with B have l: "2 \<le> length (literals (heap s (buf ! i)))" by blast
    from True V obtain r1 s1 buf1 where v: "visit lit (buf ! i) s buf = Some (r1, s1, buf1)"
      by (subst (asm) visit_all.simps) (auto split: option.splits)
    show ?thesis
    proof (cases r1)
      case (Some c')
      with True v V have "s' = s1" "r = Some c'"
        by (subst (asm) visit_all.simps, simp)+
      with stepC [OF P l v [unfolded Some]] show ?thesis by simp
    next
      case None
      from stepN [OF P l v [unfolded None]] have P1: "P s1" .
      from True v V None have V1: "visit_all lit (i + 1) n s1 buf1 = Some (r, s')"
        by (subst (asm) visit_all.simps) simp
      note lf = visit_frame(1) [OF v]
      from visit_frame(2) [OF v]
      have "(\<forall>c\<in>set buf1. 2 \<le> length (literals (heap s1 c)))
         \<and> length (watched s1 (- lit)) \<le> length buf1 \<and> length buf1 = n"
      proof (elim disjE conjE)
        assume "buf1 = buf" "watched s1 (- lit) = watched s (- lit)"
        with B L N show ?thesis by (simp add: lf)
      next
        assume b: "buf1 = compact (removeAll (buf ! i) (watched s (- lit))) buf"
          and w: "watched s1 (- lit) = removeAll (buf ! i) (watched s (- lit))"
        have ll: "length (removeAll (buf ! i) (watched s (- lit))) \<le> length buf"
          using L length_removeAll_less_eq [of "buf ! i" "watched s (- lit)"] by linarith
        have "2 \<le> length (literals (heap s1 c))" if "c \<in> set buf1" for c
        proof -
          from that set_compact [of "removeAll (buf ! i) (watched s (- lit))" buf]
          have "c \<in> set (watched s (- lit)) \<or> c \<in> set buf" unfolding b by auto
          with B watch_invariant_watched [OF W [OF P], of c "- lit"] show ?thesis
            by (auto simp: lf)
        qed
        with ll N show ?thesis unfolding w b by (simp add: length_compact)
      qed
      then have B1: "\<forall>c\<in>set buf1. 2 \<le> length (literals (heap s1 c))"
        and L1: "length (watched s1 (- lit)) \<le> length buf1" and N1: "length buf1 = n"
        by blast+
      from "1.IH" [OF True v refl None refl P1 B1 L1 N1 V1] show ?thesis .
    qed
  qed
qed

lemma propagate_rule_aux:
  assumes W: "\<And>s. P s \<Longrightarrow> watch_invariant s"
    and stepN: "\<And>lit c s buf s' buf'. P s \<Longrightarrow> 2 \<le> length (literals (heap s c)) \<Longrightarrow>
       visit lit c s buf = Some (None, s', buf') \<Longrightarrow> P s'"
    and stepC: "\<And>lit c s buf c' s' buf'. P s \<Longrightarrow> 2 \<le> length (literals (heap s c)) \<Longrightarrow>
       visit lit c s buf = Some (Some c', s', buf') \<Longrightarrow> Q c' s'"
    and cur: "\<And>s a b. P s \<Longrightarrow> P (s\<lparr>propagations := a, propagated := b\<rparr>)"
    and p: "propagate s = Some y"
  shows "P s \<longrightarrow> (case fst y of None \<Rightarrow> P (snd y) | Some c \<Rightarrow> Q c (snd y))"
  using p
proof (rule propagate.raw_induct [rotated])
  fix propagate' :: "solver \<Rightarrow> (nat option \<times> solver) option" and s sa
  assume IH: "\<And>x y. propagate' x = Some y \<Longrightarrow>
     P x \<longrightarrow> (case fst y of None \<Rightarrow> P (snd y) | Some c \<Rightarrow> Q c (snd y))"
  assume body: "(if propagated s \<noteq> length (trail s) then
        (if propagated s > length (trail s) then None
         else let lit = trail s ! propagated s;
                  s1 = s\<lparr>propagations := propagations s + 1, propagated := propagated s + 1\<rparr>;
                  buf = watched s1 (- lit)
              in case visit_all lit 0 (length buf) s1 buf of
                   None \<Rightarrow> None
                 | Some (Some c, s2) \<Rightarrow> Some (Some c, s2)
                 | Some (None, s2) \<Rightarrow> propagate' s2)
      else Some (None, s)) = Some sa"
  show "P s \<longrightarrow> (case fst sa of None \<Rightarrow> P (snd sa) | Some c \<Rightarrow> Q c (snd sa))"
  proof
    assume Ps: "P s"
    show "case fst sa of None \<Rightarrow> P (snd sa) | Some c \<Rightarrow> Q c (snd sa)"
    proof (cases "propagated s \<noteq> length (trail s)")
      case False
      with body Ps show ?thesis by auto
    next
      case True
      define s1 where "s1 = s\<lparr>propagations := propagations s + 1, propagated := propagated s + 1\<rparr>"
      define lit where "lit = trail s ! propagated s"
      have P1: "P s1" unfolding s1_def by (rule cur [OF Ps])
      from True body have body':
        "(case visit_all lit 0 (length (watched s1 (- lit))) s1 (watched s1 (- lit)) of
                   None \<Rightarrow> None
                 | Some (Some c, s2) \<Rightarrow> Some (Some c, s2)
                 | Some (None, s2) \<Rightarrow> propagate' s2) = Some sa"
        unfolding s1_def lit_def by (simp add: Let_def split: if_splits)
      then obtain r2 s2 where
        va: "visit_all lit 0 (length (watched s1 (- lit))) s1 (watched s1 (- lit)) = Some (r2, s2)"
        by (auto split: option.splits)
      have B: "\<forall>c\<in>set (watched s1 (- lit)). 2 \<le> length (literals (heap s1 c))"
        using watch_invariant_watched [OF W [OF P1]] by blast
      from visit_all_rule [of P Q, OF W stepN stepC P1 B _ refl va]
      have R: "case r2 of None \<Rightarrow> P s2 | Some c \<Rightarrow> Q c s2" by simp
      show ?thesis
      proof (cases r2)
        case None
        with body' va have "propagate' s2 = Some sa" by simp
        from IH [OF this] R None show ?thesis by simp
      next
        case (Some c)
        with body' va have "sa = (Some c, s2)" by auto
        with R Some show ?thesis by simp
      qed
    qed
  qed
qed

lemma propagate_rule:
  assumes "\<And>s. P s \<Longrightarrow> watch_invariant s"
    and "\<And>lit c s buf s' buf'. P s \<Longrightarrow> 2 \<le> length (literals (heap s c)) \<Longrightarrow>
       visit lit c s buf = Some (None, s', buf') \<Longrightarrow> P s'"
    and "\<And>lit c s buf c' s' buf'. P s \<Longrightarrow> 2 \<le> length (literals (heap s c)) \<Longrightarrow>
       visit lit c s buf = Some (Some c', s', buf') \<Longrightarrow> Q c' s'"
    and "\<And>s a b. P s \<Longrightarrow> P (s\<lparr>propagations := a, propagated := b\<rparr>)"
    and "propagate s = Some (r, s')" and "P s"
  shows "case r of None \<Rightarrow> P s' | Some c \<Rightarrow> Q c s'"
proof -
  have "P s \<longrightarrow> (case fst (r, s') of None \<Rightarrow> P (snd (r, s')) | Some c \<Rightarrow> Q c (snd (r, s')))"
  proof (rule propagate_rule_aux [where P = P and Q = Q and y = "(r, s')"])
    show "propagate s = Some (r, s')" by (rule assms(5))
  next
    fix s assume "P s" then show "watch_invariant s" by (rule assms(1))
  next
    fix lit c s buf s' buf'
    assume "P s" "2 \<le> length (literals (heap s c))" "visit lit c s buf = Some (None, s', buf')"
    then show "P s'" by (rule assms(2))
  next
    fix lit c s buf c' s' buf'
    assume "P s" "2 \<le> length (literals (heap s c))"
      "visit lit c s buf = Some (Some c', s', buf')"
    then show "Q c' s'" by (rule assms(3))
  next
    fix s :: solver and a b assume "P s"
    then show "P (s\<lparr>propagations := a, propagated := b\<rparr>)" by (rule assms(4))
  qed
  with assms(6) show ?thesis by (cases r) simp_all
qed

lemma basic_invariant_propagate:
  assumes "basic_invariant s" and "propagate s = Some (r, s')"
  shows "basic_invariant s'"
proof -
  have "case r of None \<Rightarrow> basic_invariant s' | Some c \<Rightarrow> basic_invariant s'"
  proof (rule propagate_rule [of basic_invariant "\<lambda>c. basic_invariant", OF _ _ _ _ assms(2,1)])
    fix s assume "basic_invariant s"
    then show "watch_invariant s" unfolding basic_invariant_def by blast
  next
    fix lit c s buf s' buf'
    assume "basic_invariant s" "2 \<le> length (literals (heap s c))"
      "visit lit c s buf = Some (None, s', buf')"
    then show "basic_invariant s'" by (rule basic_invariant_visit)
  next
    fix lit c s buf c' s' buf'
    assume "basic_invariant s" "2 \<le> length (literals (heap s c))"
      "visit lit c s buf = Some (Some c', s', buf')"
    then show "basic_invariant s'" by (rule basic_invariant_visit)
  next
    fix s :: solver and a b
    assume "basic_invariant s"
    then show "basic_invariant (s\<lparr>propagations := a, propagated := b\<rparr>)"
      by (rule basic_invariant_frame [rotated -1]) simp_all
  qed
  then show ?thesis by (cases r) simp_all
qed

lemma next_unassigned_Some:
  "next_unassigned s i = Some v \<Longrightarrow>
   i \<le> v \<and> v \<le> variables s \<and> values s v = 0 \<and> (\<forall>u. i \<le> u \<and> u < v \<longrightarrow> values s u \<noteq> 0)"
proof (induction s i rule: next_unassigned.induct)
  case (1 s i)
  show ?case
  proof (cases "i > variables s")
    case True
    with "1.prems" show ?thesis by (simp add: next_unassigned.simps)
  next
    case False
    show ?thesis
    proof (cases "values s i \<noteq> 0")
      case True
      with False "1.prems" have n: "next_unassigned s (i + 1) = Some v"
        by (subst (asm) next_unassigned.simps) simp
      from "1.IH" [OF False True n]
      have a: "i + 1 \<le> v" "v \<le> variables s" "values s v = 0"
        and b: "\<And>u. i + 1 \<le> u \<Longrightarrow> u < v \<Longrightarrow> values s u \<noteq> 0" by blast+
      have "values s u \<noteq> 0" if "i \<le> u" "u < v" for u
      proof (cases "u = i")
        case True
        with \<open>values s i \<noteq> 0\<close> show ?thesis by simp
      next
        case False
        with that(1) have "i + 1 \<le> u" by simp
        from b [OF this that(2)] show ?thesis .
      qed
      with a show ?thesis by auto
    next
      case v0: False
      with False "1.prems" have "v = i"
        by (subst (asm) next_unassigned.simps) simp
      with False v0 show ?thesis by simp
    qed
  qed
qed

lemma next_unassigned_exists:
  "i \<le> v \<Longrightarrow> v \<le> variables s \<Longrightarrow> values s v = 0 \<Longrightarrow> \<exists>w. next_unassigned s i = Some w"
proof (induction s i rule: next_unassigned.induct)
  case (1 s i)
  from "1.prems" have le: "\<not> i > variables s" by simp
  show ?case
  proof (cases "values s i \<noteq> 0")
    case True
    with "1.prems" have "i \<noteq> v" by auto
    with "1.prems"(1) have "i + 1 \<le> v" by simp
    from "1.IH" [OF le True this "1.prems"(2,3)] le True show ?thesis
      by (subst next_unassigned.simps) simp
  next
    case False
    with le show ?thesis by (subst next_unassigned.simps) simp
  qed
qed

lemma decide_eq:
  assumes "decide s = Some s'"
  obtains v where "next_unassigned s (searched s) = Some v"
    "s' = assign v None
            (s\<lparr>decisions := decisions s + 1, searched := v, level := level s + 1,
               control := control s @ [length (trail s)], stamped := (stamped s)(v := 0)\<rparr>)"
  using assms by (cases "next_unassigned s (searched s)") (simp_all add: decide_def)

lemma basic_invariant_decide:
  assumes bi: "basic_invariant s" and d: "decide s = Some s'"
  shows "basic_invariant s'"
proof -
  from d obtain v where n: "next_unassigned s (searched s) = Some v"
    and s': "s' = assign v None
            (s\<lparr>decisions := decisions s + 1, searched := v, level := level s + 1,
               control := control s @ [length (trail s)], stamped := (stamped s)(v := 0)\<rparr>)"
    by (rule decide_eq)
  let ?s1 = "s\<lparr>decisions := decisions s + 1, searched := v, level := level s + 1,
               control := control s @ [length (trail s)], stamped := (stamped s)(v := 0)\<rparr>"
  from bi have w: "watch_invariant s" and si: "searched_invariant s"
    and t: "0 \<notin> set (trail s)"
    unfolding basic_invariant_def by blast+
  from si have one: "1 \<le> searched s"
    and old: "\<And>u. 1 \<le> u \<Longrightarrow> u < searched s \<Longrightarrow> values s u \<noteq> 0"
    unfolding searched_invariant_def by blast+
  from next_unassigned_Some [OF n] have sv: "searched s \<le> v"
    and new: "\<And>u. searched s \<le> u \<Longrightarrow> u < v \<Longrightarrow> values s u \<noteq> 0" by blast+
  from one sv have v1: "1 \<le> v" by simp
  have "values s u \<noteq> 0" if "1 \<le> u" "u < v" for u
    using old [of u] new [of u] that by (cases "u < searched s") simp_all
  with v1 have "searched_invariant ?s1" unfolding searched_invariant_def by simp
  moreover have "watch_invariant ?s1"
    by (rule watch_invariant_frame [OF _ _ _ _ _ w]) simp_all
  moreover from t have "0 \<notin> set (trail ?s1)" by simp
  ultimately have "basic_invariant ?s1" unfolding basic_invariant_def by blast
  moreover from v1 have "v \<noteq> 0" by simp
  ultimately show ?thesis unfolding s' by (rule basic_invariant_assign)
qed

lemma analyze_conflict_result:
  assumes "analyze_conflict c s = Some (s2, uip, learned0, learned1, b)"
  obtains s1 cur low k1 cur2 low2 k2 where
    "analyze_clause c (s, 0, 0) = (s1, cur, low)"
    "resolve_loop (length (trail s1)) (s1, cur, low) = Some (k1, s2, cur2, low2)"
    "find_uip k1 s2 = Some (uip, k2)"
    "collect_lower k2 s2 low2 [] 0 = Some (learned0, b)"
    "learned1 = minimize s2 learned0"
proof -
  obtain s1 cur low where a: "analyze_clause c (s, 0, 0) = (s1, cur, low)"
    by (cases "analyze_clause c (s, 0, 0)") auto
  from assms a obtain k1 s2' cur2 low2 where
    r: "resolve_loop (length (trail s1)) (s1, cur, low) = Some (k1, s2', cur2, low2)"
    by (cases "resolve_loop (length (trail s1)) (s1, cur, low)")
      (auto simp: analyze_conflict_def)
  from assms a r obtain uip' k2 where f: "find_uip k1 s2' = Some (uip', k2)"
    by (cases "find_uip k1 s2'") (auto simp: analyze_conflict_def)
  from assms a r f obtain l0 b' where cl: "collect_lower k2 s2' low2 [] 0 = Some (l0, b')"
    by (cases "collect_lower k2 s2' low2 [] 0") (auto simp: analyze_conflict_def)
  from assms a r f cl have eq: "s2' = s2" "uip' = uip" "l0 = learned0" "b' = b"
    "minimize s2' l0 = learned1"
    by (auto simp: analyze_conflict_def)
  show ?thesis
  proof (rule that [OF a])
    from r eq show "resolve_loop (length (trail s1)) (s1, cur, low) = Some (k1, s2, cur2, low2)"
      by simp
    from f eq show "find_uip k1 s2 = Some (uip, k2)" by simp
    from cl eq show "collect_lower k2 s2 low2 [] 0 = Some (learned0, b)" by simp
    from eq show "learned1 = minimize s2 learned0" by simp
  qed
qed

lemma resolve_loop_le:
  "resolve_loop k (s, cur, low) = Some (k', s', cur', low') \<Longrightarrow> k' \<le> k"
proof (induction k arbitrary: s cur low)
  case 0
  then show ?case by (auto split: if_splits)
next
  case (Suc k)
  show ?case
  proof (cases "cur > 1")
    case False
    with Suc.prems show ?thesis by simp
  next
    case True
    show ?thesis
    proof (cases "stamped s \<bar>trail s ! k\<bar> = conflicts s")
      case False
      with True Suc.prems have "resolve_loop k (s, cur, low) = Some (k', s', cur', low')"
        by (simp add: Let_def)
      from Suc.IH [OF this] show ?thesis by simp
    next
      case st: True
      obtain s1 c1 l1 where a: "(case reasons s \<bar>trail s ! k\<bar> of
                    None \<Rightarrow> (s, cur, low)
                  | Some reason \<Rightarrow> analyze_clause reason (s, cur, low)) = (s1, c1, l1)"
        by (cases "(case reasons s \<bar>trail s ! k\<bar> of
                    None \<Rightarrow> (s, cur, low)
                  | Some reason \<Rightarrow> analyze_clause reason (s, cur, low))") auto
      from True st a Suc.prems have "resolve_loop k (s1, c1 - 1, l1) = Some (k', s', cur', low')"
        by (simp add: Let_def)
      from Suc.IH [OF this] show ?thesis by simp
    qed
  qed
qed

lemma find_uip_Some:
  "find_uip k s = Some (uip, k2) \<Longrightarrow>
   k2 < k \<and> uip = trail s ! k2 \<and> stamped s \<bar>uip\<bar> = conflicts s"
proof (induction k)
  case 0
  then show ?case by simp
next
  case (Suc k)
  show ?case
  proof (cases "stamped s \<bar>trail s ! k\<bar> \<noteq> conflicts s")
    case True
    with Suc.prems have "find_uip k s = Some (uip, k2)" by simp
    from Suc.IH [OF this] show ?thesis by auto
  next
    case False
    with Suc.prems show ?thesis by auto
  qed
qed

lemma collect_lower_set:
  "collect_lower k s low acc bj = Some (learned, b) \<Longrightarrow> k \<le> length (trail s) \<Longrightarrow>
   set learned \<subseteq> set acc \<union> uminus ` set (trail s)"
proof (induction k arbitrary: low acc bj)
  case 0
  then show ?case by (auto split: if_splits)
next
  case (Suc k)
  from Suc.prems(2) have kl: "k \<le> length (trail s)" and kin: "trail s ! k \<in> set (trail s)"
    by simp_all
  show ?case
  proof (cases "low \<noteq> 0")
    case False
    with Suc.prems show ?thesis by auto
  next
    case True
    show ?thesis
    proof (cases "stamped s \<bar>trail s ! k\<bar> = conflicts s")
      case False
      with True Suc.prems have "collect_lower k s low acc bj = Some (learned, b)"
        by (simp add: Let_def)
      from Suc.IH [OF this kl] show ?thesis .
    next
      case st: True
      with True Suc.prems have "collect_lower k s (low - 1) (acc @ [- (trail s ! k)])
         (if levels s \<bar>trail s ! k\<bar> > bj then levels s \<bar>trail s ! k\<bar> else bj) = Some (learned, b)"
        by (simp add: Let_def)
      from Suc.IH [OF this kl] kin show ?thesis by auto
    qed
  qed
qed

lemma basic_invariant_learn_and_assign:
  assumes "basic_invariant s" and "uip \<noteq> 0" and "0 \<notin> set learned1"
  shows "basic_invariant (learn_and_assign uip learned1 s)"
proof (cases "learned1 = []")
  case True
  with basic_invariant_assign [OF assms(1), of "- uip" None] assms(2) show ?thesis
    by (simp add: learn_and_assign_def)
next
  case False
  from assms(2,3) have "0 \<notin> set (learned1 @ [- uip])" by simp
  from basic_invariant_add_clause [OF assms(1) this]
  have "basic_invariant (add_clause (learned1 @ [- uip]) s)" .
  from basic_invariant_assign [OF this, of "- uip" "Some (added s)"] assms(2) False
  show ?thesis by (simp add: learn_and_assign_def)
qed

lemma analyze_conflict_literals:
  assumes ac: "analyze_conflict c s = Some (s2, uip, learned0, learned1, b)"
  shows "uip \<in> set (trail s)" and "set learned1 \<subseteq> uminus ` set (trail s)"
proof -
  from ac obtain s1 cur low k1 cur2 low2 k2 where
    a: "analyze_clause c (s, 0, 0) = (s1, cur, low)"
    and r: "resolve_loop (length (trail s1)) (s1, cur, low) = Some (k1, s2, cur2, low2)"
    and f: "find_uip k1 s2 = Some (uip, k2)"
    and cl: "collect_lower k2 s2 low2 [] 0 = Some (learned0, b)"
    and m: "learned1 = minimize s2 learned0"
    by (rule analyze_conflict_result)
  from restamp_fields(3) [OF restamp_analyze_clause [OF a]] have t1: "trail s1 = trail s" .
  from restamp_fields(3) [OF restamp_resolve_loop [OF r]] t1 have t2: "trail s2 = trail s"
    by simp
  from resolve_loop_le [OF r] t1 have k1: "k1 \<le> length (trail s)" by simp
  from find_uip_Some [OF f] have k2: "k2 < k1" and u: "uip = trail s ! k2"
    by (simp_all add: t2)
  from k1 k2 u show "uip \<in> set (trail s)" by simp
  from k1 k2 have "k2 \<le> length (trail s2)" by (simp add: t2)
  from collect_lower_set [OF cl this] have "set learned0 \<subseteq> uminus ` set (trail s)"
    by (simp add: t2)
  with minimize_removes [of s2 learned0] m show "set learned1 \<subseteq> uminus ` set (trail s)"
    by blast
qed

lemma basic_invariant_analyze:
  assumes bi: "basic_invariant s" and an: "analyze c s = Some s'"
  shows "basic_invariant s'"
proof -
  from an obtain s2 uip learned0 learned1 b s3 where
    ac: "analyze_conflict c s = Some (s2, uip, learned0, learned1, b)"
    and bt: "backtrack b s2 = Some s3"
    and s': "s' = learn_and_assign uip learned1 s3
     \<or> s' = (learn_and_assign uip learned1 s3)
              \<lparr>backjumps := backjumps (learn_and_assign uip learned1 s3) + 1\<rparr>"
    by (rule analyze_result)
  from bi have t: "0 \<notin> set (trail s)" unfolding basic_invariant_def by blast
  from analyze_conflict_literals [OF ac] t have u: "uip \<noteq> 0" and l: "0 \<notin> set learned1"
    by auto
  from basic_invariant_restamp [OF restamp_analyze_conflict [OF ac] bi]
  have "basic_invariant s2" .
  from basic_invariant_backtrack [OF this bt] have "basic_invariant s3" .
  from basic_invariant_learn_and_assign [OF this u l]
  have s4: "basic_invariant (learn_and_assign uip learned1 s3)" .
  have "basic_invariant ((learn_and_assign uip learned1 s3)
              \<lparr>backjumps := backjumps (learn_and_assign uip learned1 s3) + 1\<rparr>)"
    by (rule basic_invariant_frame [OF _ _ _ _ _ _ _ _ s4]) simp_all
  with s4 s' show ?thesis by blast
qed

lemma reachable_basic_invariant: "reachable s \<Longrightarrow> basic_invariant s"
proof (induction rule: reachable.induct)
  case (reachable_initialize n lim)
  show ?case by (rule basic_invariant_initialize)
next
  case (reachable_add_clause s lits)
  then show ?case by (simp add: basic_invariant_add_clause)
next
  case (reachable_propagate s r s')
  then show ?case by (blast intro: basic_invariant_propagate)
next
  case (reachable_decide s s')
  then show ?case by (blast intro: basic_invariant_decide)
next
  case (reachable_analyze s c s1 s')
  from basic_invariant_propagate [OF reachable_analyze.IH reachable_analyze.hyps(2)]
  have "basic_invariant s1" .
  from basic_invariant_analyze [OF this reachable_analyze.hyps(3)] show ?case .
qed


section \<open>Consistency of the trail\<close>

lemma trail_invariantD:
  assumes "trail_invariant s"
  shows "\<And>i. i < length (trail s) \<Longrightarrow> values s (trail s ! i) = 1"
    and "\<And>i. i < length (trail s) \<Longrightarrow> levels s \<bar>trail s ! i\<bar> = decisions_upto s i"
    and "distinct (map abs (trail s))"
    and "sorted_wrt (<) (control s)"
    and "\<And>p. p \<in> set (control s) \<Longrightarrow> p < length (trail s)"
    and "level s = length (control s)"
    and "\<And>l. (values s l = 0) = (values s (- l) = 0)"
    and "\<And>v. stamped s v \<le> conflicts s"
  using assms unfolding trail_invariant_def trail_consistent_def by blast+

lemma trail_invariantI:
  assumes "\<And>i. i < length (trail s) \<Longrightarrow> values s (trail s ! i) = 1"
    and "\<And>i. i < length (trail s) \<Longrightarrow> levels s \<bar>trail s ! i\<bar> = decisions_upto s i"
    and "distinct (map abs (trail s))"
    and "sorted_wrt (<) (control s)"
    and "\<And>p. p \<in> set (control s) \<Longrightarrow> p < length (trail s)"
    and "level s = length (control s)"
    and "\<And>l. (values s l = 0) = (values s (- l) = 0)"
    and "\<And>v. stamped s v \<le> conflicts s"
  shows "trail_invariant s"
  unfolding trail_invariant_def trail_consistent_def using assms by blast

lemma trail_invariant_frame:
  assumes "values s' = values s" "trail s' = trail s" "levels s' = levels s"
    "control s' = control s" "level s' = level s" "stamped s' = stamped s"
    "conflicts s \<le> conflicts s'" and ti: "trail_invariant s"
  shows "trail_invariant s'"
proof (rule trail_invariantI)
  note d = trail_invariantD [OF ti]
  fix i assume "i < length (trail s')"
  then have i: "i < length (trail s)" by (simp add: assms(2))
  from d(1) [OF i] show "values s' (trail s' ! i) = 1" by (simp add: assms(1,2))
  from d(2) [OF i] show "levels s' \<bar>trail s' ! i\<bar> = decisions_upto s' i"
    by (simp add: assms(2,3,4) decisions_upto_def)
next
  note d = trail_invariantD [OF ti]
  from d(3) show "distinct (map abs (trail s'))" by (simp add: assms(2))
  from d(4) show "sorted_wrt (<) (control s')" by (simp add: assms(4))
  from d(6) show "level s' = length (control s')" by (simp add: assms(4,5))
  show "p < length (trail s')" if "p \<in> set (control s')" for p
    using d(5) [of p] that by (simp add: assms(2,4))
  show "(values s' l = 0) = (values s' (- l) = 0)" for l
    using d(7) [of l] by (simp add: assms(1))
  show "stamped s' v \<le> conflicts s'" for v
    using d(8) [of v] assms(7) by (simp add: assms(6))
qed

lemma trail_invariant_initialize: "trail_invariant (initialize n lim)"
  by (rule trail_invariantI) (simp_all add: initialize_def)

lemma trail_invariant_push:
  assumes ti: "trail_invariant s" and v0: "values s lit = 0" and nz: "lit \<noteq> 0"
    and tr: "trail s' = trail s @ [lit]"
    and va: "values s' = ((values s)(lit := 1))(- lit := - 1)"
    and le: "levels s' = (levels s)(\<bar>lit\<bar> := length (control s'))"
    and co: "control s' = control s \<or> control s' = control s @ [length (trail s)]"
    and lv: "level s' = length (control s')"
    and st: "\<And>v. stamped s' v \<le> conflicts s'"
  shows "trail_invariant s'"
proof -
  note d = trail_invariantD [OF ti]
  let ?n = "length (trail s)"
  from d(7) [of lit] v0 have v0': "values s (- lit) = 0" by simp
  have ne: "trail s ! i \<noteq> lit \<and> trail s ! i \<noteq> - lit" if "i < ?n" for i
    using d(1) [OF that] v0 v0' by auto
  have nabs: "\<bar>trail s ! i\<bar> \<noteq> \<bar>lit\<bar>" if "i < ?n" for i
    using ne [OF that] by linarith
  have du_old: "decisions_upto s' i = decisions_upto s i" if "i < ?n" for i
    using co that by (auto simp: decisions_upto_def)
  have all_le: "\<forall>p\<in>set (control s'). p \<le> ?n"
    using co d(5) by (auto simp: less_imp_le)
  have du_new: "decisions_upto s' ?n = length (control s')"
    unfolding decisions_upto_def using all_le by simp
  show ?thesis
  proof (rule trail_invariantI)
    fix i assume "i < length (trail s')"
    then have "i < ?n \<or> i = ?n" by (auto simp: tr)
    then show "values s' (trail s' ! i) = 1"
    proof
      assume i: "i < ?n"
      with ne [OF i] d(1) [OF i] show ?thesis by (simp add: tr va nth_append)
    next
      assume "i = ?n"
      with nz show ?thesis by (simp add: tr va)
    qed
    from \<open>i < ?n \<or> i = ?n\<close> show "levels s' \<bar>trail s' ! i\<bar> = decisions_upto s' i"
    proof
      assume i: "i < ?n"
      with nabs [OF i] d(2) [OF i] du_old [OF i] show ?thesis
        by (simp add: tr le nth_append)
    next
      assume "i = ?n"
      with du_new show ?thesis by (simp add: tr le)
    qed
  next
    have "\<bar>lit\<bar> \<notin> set (map abs (trail s))"
    proof
      assume "\<bar>lit\<bar> \<in> set (map abs (trail s))"
      then obtain i where "i < ?n" "\<bar>trail s ! i\<bar> = \<bar>lit\<bar>"
        by (auto simp: in_set_conv_nth)
      with nabs show False by blast
    qed
    with d(3) show "distinct (map abs (trail s'))" by (simp add: tr)
  next
    from co d(4) d(5) show "sorted_wrt (<) (control s')"
      by (auto simp: sorted_wrt_append)
  next
    fix p assume "p \<in> set (control s')"
    with all_le show "p < length (trail s')" by (auto simp: tr less_Suc_eq_le)
  next
    show "level s' = length (control s')" by (rule lv)
  next
    fix l
    have "l = lit \<or> l = - lit \<or> (l \<noteq> lit \<and> l \<noteq> - lit)" by blast
    then show "(values s' l = 0) = (values s' (- l) = 0)"
    proof (elim disjE)
      assume "l = lit" with nz show ?thesis by (simp add: va)
    next
      assume "l = - lit" with nz show ?thesis by (simp add: va)
    next
      assume a: "l \<noteq> lit \<and> l \<noteq> - lit"
      then have "- l \<noteq> lit" "- l \<noteq> - lit" by auto
      with a d(7) [of l] show ?thesis by (simp add: va)
    qed
  next
    fix v show "stamped s' v \<le> conflicts s'" by (rule st)
  qed
qed

lemma trail_invariant_assign:
  assumes ti: "trail_invariant s" and v0: "values s lit = 0" and nz: "lit \<noteq> 0"
  shows "trail_invariant (assign lit r s)"
proof (rule trail_invariant_push [OF ti v0 nz])
  note d = trail_invariantD [OF ti]
  show "trail (assign lit r s) = trail s @ [lit]" by (simp add: assign_def)
  show "values (assign lit r s) = ((values s)(lit := 1))(- lit := - 1)" by (simp add: assign_def)
  show "levels (assign lit r s) = (levels s)(\<bar>lit\<bar> := length (control (assign lit r s)))"
    by (simp add: assign_def d(6))
  show "control (assign lit r s) = control s
      \<or> control (assign lit r s) = control s @ [length (trail s)]"
    by (simp add: assign_def)
  show "level (assign lit r s) = length (control (assign lit r s))" by (simp add: assign_def d(6))
  show "stamped (assign lit r s) v \<le> conflicts (assign lit r s)" for v
    using d(8) [of v] by (simp add: assign_def)
qed

lemma trail_invariant_decide:
  assumes ti: "trail_invariant s" and bi: "basic_invariant s" and dc: "decide s = Some s'"
  shows "trail_invariant s'"
proof -
  from dc obtain v where n: "next_unassigned s (searched s) = Some v"
    and s': "s' = assign v None
            (s\<lparr>decisions := decisions s + 1, searched := v, level := level s + 1,
               control := control s @ [length (trail s)], stamped := (stamped s)(v := 0)\<rparr>)"
    by (rule decide_eq)
  note d = trail_invariantD [OF ti]
  from bi have "1 \<le> searched s" unfolding basic_invariant_def searched_invariant_def by blast
  with next_unassigned_Some [OF n] have v1: "1 \<le> v" and v0: "values s v = 0" by auto
  from v1 have vz: "v \<noteq> 0" and av: "\<bar>v\<bar> = v" by simp_all
  show ?thesis
  proof (rule trail_invariant_push [OF ti v0 vz])
    show "trail s' = trail s @ [v]" by (simp add: s' assign_def)
    show "values s' = ((values s)(v := 1))(- v := - 1)" by (simp add: s' assign_def)
    show "levels s' = (levels s)(\<bar>v\<bar> := length (control s'))" by (simp add: s' assign_def d(6))
    show "control s' = control s \<or> control s' = control s @ [length (trail s)]"
      by (simp add: s' assign_def)
    show "level s' = length (control s')" by (simp add: s' assign_def d(6))
    show "stamped s' u \<le> conflicts s'" for u
      using d(8) [of u] by (simp add: s' assign_def)
  qed
qed

lemma values_unassign_all:
  "values (unassign_all ls s) l = (if l \<in> set ls \<or> - l \<in> set ls then 0 else values s l)"
proof (induction ls arbitrary: s)
  case Nil
  show ?case by simp
next
  case (Cons x xs)
  have "- l = x \<longleftrightarrow> l = - x" by auto
  then show ?case by (simp add: Cons.IH values_unassign)
qed

lemma unassign_all_fields [simp]:
  "levels (unassign_all ls s) = levels s" "stamped (unassign_all ls s) = stamped s"
  "conflicts (unassign_all ls s) = conflicts s" "control (unassign_all ls s) = control s"
  "level (unassign_all ls s) = level s" "reasons (unassign_all ls s) = reasons s"
  by (induction ls arbitrary: s) (simp_all add: unassign_def)

lemma filter_take_sorted:
  assumes "sorted_wrt (<) (xs :: nat list)" and "k < length xs" and "i < xs ! k"
  shows "filter (\<lambda>p. p \<le> i) (take k xs) = filter (\<lambda>p. p \<le> i) xs"
proof -
  have "\<not> p \<le> i" if "p \<in> set (drop k xs)" for p
  proof -
    from that obtain j where j: "j < length xs - k" "p = xs ! (k + j)"
      by (auto simp: in_set_conv_nth)
    have "xs ! k \<le> xs ! (k + j)"
    proof (cases "j = 0")
      case True
      then show ?thesis by simp
    next
      case False
      with j(1) have "k < k + j" "k + j < length xs" by simp_all
      from sorted_wrt_nth_less [OF assms(1) this] show ?thesis by simp
    qed
    with assms(3) j(2) show ?thesis by simp
  qed
  then have "filter (\<lambda>p. p \<le> i) (drop k xs) = []" by (simp add: filter_empty_conv)
  then have "filter (\<lambda>p. p \<le> i) (take k xs @ drop k xs) = filter (\<lambda>p. p \<le> i) (take k xs)"
    by (simp only: filter_append append_Nil2)
  then show ?thesis by simp
qed

lemma distinct_map_nth:
  assumes "distinct (map f xs)" and "i < length xs" and "j < length xs" and "i \<noteq> j"
  shows "f (xs ! i) \<noteq> f (xs ! j)"
  using nth_eq_iff_index_eq [OF assms(1), of i j] assms(2-4) by simp

lemma trail_invariant_backtrack:
  assumes ti: "trail_invariant s" and bt: "backtrack k s = Some s'"
  shows "trail_invariant s'"
proof -
  note d = trail_invariantD [OF ti]
  note kl = backtrack_eq(1) [OF bt]
  note e = backtrack_eq(3) [OF bt]
  let ?b = "control s ! k"
  from kl d(5) have bl: "?b < length (trail s)" by simp
  have keep: "trail s ! i \<notin> set (drop ?b (trail s)) \<and> - (trail s ! i) \<notin> set (drop ?b (trail s))"
    if i: "i < ?b" for i
  proof -
    have "\<bar>x\<bar> \<noteq> \<bar>trail s ! i\<bar>" if x: "x \<in> set (drop ?b (trail s))" for x
    proof -
      from x obtain j where j: "j < length (trail s) - ?b" "x = trail s ! (?b + j)"
        by (auto simp: in_set_conv_nth)
      from i j(1) bl have "i < length (trail s)" "?b + j < length (trail s)"
        "i \<noteq> ?b + j" by simp_all
      from distinct_map_nth [OF d(3) this] j(2) show ?thesis by simp
    qed
    then show ?thesis by fastforce
  qed
  show ?thesis
  proof (rule trail_invariantI)
    fix i assume "i < length (trail s')"
    with bl have i: "i < ?b" and il: "i < length (trail s)" by (simp_all add: e)
    from keep [OF i] d(1) [OF il] show "values s' (trail s' ! i) = 1"
      using i by (simp add: e values_unassign_all)
    from filter_take_sorted [OF d(4) kl i] d(2) [OF il]
    show "levels s' \<bar>trail s' ! i\<bar> = decisions_upto s' i"
      using i by (simp add: e decisions_upto_def)
  next
    from d(3) show "distinct (map abs (trail s'))"
      by (simp add: e take_map [symmetric])
  next
    from d(4) show "sorted_wrt (<) (control s')" by (simp add: e)
  next
    fix p assume "p \<in> set (control s')"
    then obtain j where j: "j < k" "p = control s ! j"
      using kl by (auto simp: e in_set_conv_nth)
    from sorted_wrt_nth_less [OF d(4) j(1) kl] j(2) bl
    show "p < length (trail s')" by (simp add: e)
  next
    from kl show "level s' = length (control s')" by (simp add: e)
  next
    fix l
    from d(7) [of l] show "(values s' l = 0) = (values s' (- l) = 0)"
      by (simp add: e values_unassign_all)
  next
    fix v from d(8) [of v] show "stamped s' v \<le> conflicts s'" by (simp add: e)
  qed
qed

lemma store_clause_fields2 [simp]:
  "levels (store_clause lits s) = levels s" "control (store_clause lits s) = control s"
  "level (store_clause lits s) = level s" "stamped (store_clause lits s) = stamped s"
  "conflicts (store_clause lits s) = conflicts s"
  by (simp_all add: store_clause_def)

lemma trail_invariant_store_clause:
  "trail_invariant s \<Longrightarrow> trail_invariant (store_clause lits s)"
  by (rule trail_invariant_frame) simp_all

lemma trail_invariant_empty_clause:
  "trail_invariant s \<Longrightarrow> trail_invariant (s\<lparr>empty_clause := e\<rparr>)"
  by (rule trail_invariant_frame) simp_all

lemma trail_invariant_add_clause:
  assumes ti: "trail_invariant s" and z: "0 \<notin> set lits"
  shows "trail_invariant (add_clause lits s)"
proof -
  consider (empty) "lits = []" | (unit) u where "lits = [u]"
    | (more) a b rest where "lits = a # b # rest"
    by (cases lits rule: list.exhaust [case_product list.exhaust]) (auto, metis list.exhaust)
  then show ?thesis
  proof cases
    case empty
    with trail_invariant_empty_clause [OF trail_invariant_store_clause [OF ti]]
    show ?thesis by (simp add: add_clause_empty)
  next
    case unit
    with z have u: "u \<noteq> 0" by simp
    note st = trail_invariant_store_clause [OF ti, of "[u]"]
    consider "values s u = 0" | "values s u < 0" | "values s u > 0" by linarith
    then show ?thesis
    proof cases
      case 1
      then have "values (store_clause [u] s) u = 0" by simp
      from trail_invariant_assign [OF st this u] show ?thesis
        unfolding unit add_clause_unit_unassigned [OF 1] .
    next
      case 2
      from trail_invariant_empty_clause [OF st] show ?thesis
        unfolding unit add_clause_unit_false [OF 2] .
    next
      case 3
      from st show ?thesis unfolding unit add_clause_unit_true [OF 3] .
    qed
  next
    case more
    with z have a: "a \<noteq> 0" and b: "b \<noteq> 0" by auto
    note f = add_clause_watched_fields [OF a b]
    show ?thesis unfolding more
      by (rule trail_invariant_frame [OF _ _ _ _ _ _ _ ti]) (simp_all add: f)
  qed
qed

lemma visit_trail_invariant:
  assumes ti: "trail_invariant s" and bi: "basic_invariant s"
    and l: "2 \<le> length (literals (heap s c))"
    and v: "visit lit c s buf = Some (r, s', buf')"
  shows "trail_invariant s' \<and> stamped s' = stamped s
     \<and> conflicts s' = (case r of None \<Rightarrow> conflicts s | Some x \<Rightarrow> conflicts s + 1)"
  using visit_result [OF v]
proof (elim disjE exE conjE)
  fix s1 assume b1: "same_but_blocker c s s1" and e: "s' = s1" "r = None"
  note f1 = same_but_blocker_fields [OF b1]
  have "trail_invariant s1" by (rule trail_invariant_frame [OF _ _ _ _ _ _ _ ti]) (simp_all add: f1)
  with e show ?thesis by (simp add: f1)
next
  fix s1 assume b1: "same_but_blocker c s s1"
    and e: "s' = s1\<lparr>conflicts := conflicts s1 + 1\<rparr>" "r = Some c"
  note f1 = same_but_blocker_fields [OF b1]
  have "trail_invariant s'" unfolding e
    by (rule trail_invariant_frame [OF _ _ _ _ _ _ _ ti]) (simp_all add: f1)
  with e show ?thesis by (simp add: f1)
next
  fix s1 assume b1: "same_but_blocker c s s1"
    and e: "s' = assign (other_watch s lit c) (Some c) s1" "r = None"
    and v0: "values s (other_watch s lit c) = 0"
  note f1 = same_but_blocker_fields [OF b1]
  have t1: "trail_invariant s1"
    by (rule trail_invariant_frame [OF _ _ _ _ _ _ _ ti]) (simp_all add: f1)
  from bi have "watch_invariant s" unfolding basic_invariant_def by blast
  from other_watch_nonzero [OF this l] have nz: "other_watch s lit c \<noteq> 0" .
  from v0 have "values s1 (other_watch s lit c) = 0" by (simp add: f1)
  from trail_invariant_assign [OF t1 this nz] e show ?thesis
    by (simp add: f1 assign_def)
next
  fix x s1 assume b1: "same_but_blocker c s s1" and rn: "r = None"
    and b2: "same_but_blocker c (move_watch lit c (other_watch s lit c) x s1) s'"
  note f1 = same_but_blocker_fields [OF b1]
  note f2 = same_but_blocker_fields [OF b2]
  have "trail_invariant s'"
    by (rule trail_invariant_frame [OF _ _ _ _ _ _ _ ti]) (simp_all add: f2 move_watch_frame f1)
  with rn show ?thesis by (simp add: f2 move_watch_frame f1)
qed

lemma trail_invariant_propagate:
  assumes ti: "trail_invariant s" and bi: "basic_invariant s"
    and p: "propagate s = Some (r, s')"
  shows "trail_invariant s' \<and> stamped s' = stamped s
     \<and> conflicts s' = (case r of None \<Rightarrow> conflicts s | Some x \<Rightarrow> conflicts s + 1)"
proof -
  define P where "P = (\<lambda>t. basic_invariant t \<and> trail_invariant t
     \<and> stamped t = stamped s \<and> conflicts t = conflicts s)"
  define Q where "Q = (\<lambda>(c :: nat) t. trail_invariant t
     \<and> stamped t = stamped s \<and> conflicts t = conflicts s + 1)"
  have "case r of None \<Rightarrow> P s' | Some c \<Rightarrow> Q c s'"
  proof (rule propagate_rule [of P Q, OF _ _ _ _ p])
    fix t assume "P t"
    then show "watch_invariant t" unfolding P_def basic_invariant_def by blast
  next
    fix lit c t buf t' buf'
    assume a: "P t" "2 \<le> length (literals (heap t c))"
      "visit lit c t buf = Some (None, t', buf')"
    then have b: "basic_invariant t" "trail_invariant t" unfolding P_def by blast+
    from basic_invariant_visit [OF b(1) a(2,3)] visit_trail_invariant [OF b(2,1) a(2,3)] a(1)
    show "P t'" unfolding P_def by simp
  next
    fix lit c t buf c' t' buf'
    assume a: "P t" "2 \<le> length (literals (heap t c))"
      "visit lit c t buf = Some (Some c', t', buf')"
    then have b: "basic_invariant t" "trail_invariant t" unfolding P_def by blast+
    from visit_trail_invariant [OF b(2,1) a(2,3)] a(1)
    show "Q c' t'" unfolding P_def Q_def by simp
  next
    fix t :: solver and a b
    assume a: "P t"
    then have b: "basic_invariant t" "trail_invariant t" unfolding P_def by blast+
    have "basic_invariant (t\<lparr>propagations := a, propagated := b\<rparr>)"
      by (rule basic_invariant_frame [OF _ _ _ _ _ _ _ _ b(1)]) simp_all
    moreover have "trail_invariant (t\<lparr>propagations := a, propagated := b\<rparr>)"
      by (rule trail_invariant_frame [OF _ _ _ _ _ _ _ b(2)]) simp_all
    ultimately show "P (t\<lparr>propagations := a, propagated := b\<rparr>)"
      using a unfolding P_def by simp
  next
    from ti bi show "P s" unfolding P_def by simp
  qed
  then show ?thesis unfolding P_def Q_def by (cases r) simp_all
qed


section \<open>The counters of the conflict analysis\<close>

lemma countersD:
  assumes "counters s cur low m"
  shows "finite (stamped_vars s)"
    and "cur = int (card {v \<in> stamped_vars s. levels s v = level s}) - int m"
    and "low = int (card {v \<in> stamped_vars s. levels s v \<noteq> level s})"
    and "\<And>v. v \<in> stamped_vars s \<Longrightarrow> levels s v \<noteq> 0"
    and "\<And>v. stamped s v \<le> conflicts s"
  using assms unfolding counters_def by blast+

lemma counters_consume: "counters s cur low m \<Longrightarrow> counters s (cur - 1) low (Suc m)"
  unfolding counters_def by simp

lemma counters_analyze_literal:
  assumes c: "counters s cur low m"
    and a: "analyze_literal lit (s, cur, low) = (s', cur', low')"
  shows "counters s' cur' low' m \<and> stamped_vars s \<subseteq> stamped_vars s'"
proof (cases "levels s \<bar>lit\<bar> = 0 \<or> stamped s \<bar>lit\<bar> = conflicts s")
  case True
  with a have "s' = s" "cur' = cur" "low' = low" by (auto simp: analyze_literal_def Let_def)
  with c show ?thesis by simp
next
  case False
  note d = countersD [OF c]
  let ?S = "stamped_vars s"
  let ?i = "\<bar>lit\<bar>"
  from False have nin: "?i \<notin> ?S" and l0: "levels s ?i \<noteq> 0" by (simp_all add: stamped_vars_def)
  from False a have s': "s' = s\<lparr>stamped := (stamped s)(?i := conflicts s)\<rparr>"
    by (auto simp: analyze_literal_def Let_def split: if_splits)
  have S': "stamped_vars s' = insert ?i ?S" unfolding s' by (auto simp: stamped_vars_def)
  have f: "levels s' = levels s" "level s' = level s" "conflicts s' = conflicts s"
    unfolding s' by simp_all
  have fin: "finite (stamped_vars s')" unfolding S' using d(1) by simp
  have nz: "\<forall>v\<in>stamped_vars s'. levels s' v \<noteq> 0" unfolding S' f using d(4) l0 by blast
  have le: "\<forall>v. stamped s' v \<le> conflicts s'" using d(5) unfolding s' by simp
  have finL: "finite {v \<in> ?S. levels s v = level s}" and finN: "finite {v \<in> ?S. levels s v \<noteq> level s}"
    using d(1) by simp_all
  show ?thesis
  proof (cases "levels s ?i = level s")
    case True
    with False a have cl: "cur' = cur + 1" "low' = low"
      by (auto simp: analyze_literal_def Let_def split: if_splits)
    from True have "{v \<in> insert ?i ?S. levels s v = level s} = insert ?i {v \<in> ?S. levels s v = level s}"
      and "{v \<in> insert ?i ?S. levels s v \<noteq> level s} = {v \<in> ?S. levels s v \<noteq> level s}"
      by auto
    moreover from nin have "?i \<notin> {v \<in> ?S. levels s v = level s}" by simp
    ultimately have "card {v \<in> stamped_vars s'. levels s' v = level s'}
         = Suc (card {v \<in> ?S. levels s v = level s})"
      and "card {v \<in> stamped_vars s'. levels s' v \<noteq> level s'} = card {v \<in> ?S. levels s v \<noteq> level s}"
      unfolding S' f using finL by simp_all
    with d(2,3) cl fin nz le have "counters s' cur' low' m" unfolding counters_def by simp
    with S' show ?thesis by blast
  next
    case ne: False
    with False a have cl: "cur' = cur" "low' = low + 1"
      by (auto simp: analyze_literal_def Let_def split: if_splits)
    from ne have "{v \<in> insert ?i ?S. levels s v = level s} = {v \<in> ?S. levels s v = level s}"
      and "{v \<in> insert ?i ?S. levels s v \<noteq> level s} = insert ?i {v \<in> ?S. levels s v \<noteq> level s}"
      by auto
    moreover from nin have "?i \<notin> {v \<in> ?S. levels s v \<noteq> level s}" by simp
    ultimately have "card {v \<in> stamped_vars s'. levels s' v = level s'}
         = card {v \<in> ?S. levels s v = level s}"
      and "card {v \<in> stamped_vars s'. levels s' v \<noteq> level s'}
         = Suc (card {v \<in> ?S. levels s v \<noteq> level s})"
      unfolding S' f using finN by simp_all
    with d(2,3) cl fin nz le have "counters s' cur' low' m" unfolding counters_def by simp
    with S' show ?thesis by blast
  qed
qed

lemma counters_fold_analyze_literal:
  "counters s cur low m \<Longrightarrow> fold analyze_literal ls (s, cur, low) = (s', cur', low') \<Longrightarrow>
   counters s' cur' low' m \<and> stamped_vars s \<subseteq> stamped_vars s'"
proof (induction ls arbitrary: s cur low)
  case Nil
  then show ?case by simp
next
  case (Cons l ls)
  obtain s1 c1 l1 where a: "analyze_literal l (s, cur, low) = (s1, c1, l1)"
    by (cases "analyze_literal l (s, cur, low)") auto
  from counters_analyze_literal [OF Cons.prems(1) a]
  have c1: "counters s1 c1 l1 m" and sub: "stamped_vars s \<subseteq> stamped_vars s1" by blast+
  from Cons.prems(2) a have "fold analyze_literal ls (s1, c1, l1) = (s', cur', low')" by simp
  from Cons.IH [OF c1 this] sub show ?case by blast
qed

lemma counters_analyze_clause:
  "counters s cur low m \<Longrightarrow> analyze_clause c (s, cur, low) = (s', cur', low') \<Longrightarrow>
   counters s' cur' low' m \<and> stamped_vars s \<subseteq> stamped_vars s'"
  unfolding analyze_clause_def by (simp add: counters_fold_analyze_literal)

lemma counters_resolve_loop:
  assumes "resolve_loop k (s, cur, low) = Some (k', s', cur', low')"
    and "counters s cur low (card X)" and "finite X"
    and "X \<subseteq> {i. k \<le> i \<and> i < n \<and> \<bar>trail s ! i\<bar> \<in> stamped_vars s}" and "k \<le> n"
  shows "\<exists>X'. finite X' \<and> X' \<subseteq> {i. k' \<le> i \<and> i < n \<and> \<bar>trail s ! i\<bar> \<in> stamped_vars s'}
            \<and> counters s' cur' low' (card X') \<and> cur' \<le> 1 \<and> k' \<le> k"
  using assms
proof (induction k arbitrary: s cur low X)
  case 0
  then have e: "cur \<le> 1" "k' = 0" "s' = s" "cur' = cur" "low' = low"
    by (auto split: if_splits)
  from "0.prems"(2,3,4) e show ?case by (intro exI [of _ X]) simp
next
  case (Suc k)
  show ?case
  proof (cases "cur > 1")
    case False
    with Suc.prems(1) have e: "k' = Suc k" "s' = s" "cur' = cur" "low' = low" by simp_all
    from False Suc.prems(2,3,4) e show ?thesis by (intro exI [of _ X]) simp
  next
    case True
    from Suc.prems(5) have kn: "k \<le> n" "k < n" by simp_all
    show ?thesis
    proof (cases "stamped s \<bar>trail s ! k\<bar> = conflicts s")
      case False
      with True Suc.prems(1) have r: "resolve_loop k (s, cur, low) = Some (k', s', cur', low')"
        by (simp add: Let_def)
      from Suc.prems(4) have "X \<subseteq> {i. k \<le> i \<and> i < n \<and> \<bar>trail s ! i\<bar> \<in> stamped_vars s}"
        by auto
      from Suc.IH [OF r Suc.prems(2,3) this kn(1)] obtain X' where
        X': "finite X'" "X' \<subseteq> {i. k' \<le> i \<and> i < n \<and> \<bar>trail s ! i\<bar> \<in> stamped_vars s'}"
          "counters s' cur' low' (card X')" "cur' \<le> 1" "k' \<le> k"
        by blast
      then show ?thesis by (intro exI [of _ X']) simp
    next
      case st: True
      obtain s1 c1 l1 where a: "(case reasons s \<bar>trail s ! k\<bar> of
                    None \<Rightarrow> (s, cur, low)
                  | Some reason \<Rightarrow> analyze_clause reason (s, cur, low)) = (s1, c1, l1)"
        by (cases "(case reasons s \<bar>trail s ! k\<bar> of
                    None \<Rightarrow> (s, cur, low)
                  | Some reason \<Rightarrow> analyze_clause reason (s, cur, low))") auto
      have "counters s1 c1 l1 (card X) \<and> stamped_vars s \<subseteq> stamped_vars s1 \<and> restamp s s1"
      proof (cases "reasons s \<bar>trail s ! k\<bar>")
        case None
        with a have "s1 = s" "c1 = cur" "l1 = low" by simp_all
        with Suc.prems(2) show ?thesis by simp
      next
        case (Some reason)
        with a have ac: "analyze_clause reason (s, cur, low) = (s1, c1, l1)" by simp
        from counters_analyze_clause [OF Suc.prems(2) ac] restamp_analyze_clause [OF ac]
        show ?thesis by blast
      qed
      then have c1: "counters s1 c1 l1 (card X)" and sub: "stamped_vars s \<subseteq> stamped_vars s1"
        and rs: "restamp s s1" by blast+
      note t1 = restamp_fields(3) [OF rs]
      from True st a Suc.prems(1)
      have r: "resolve_loop k (s1, c1 - 1, l1) = Some (k', s', cur', low')"
        by (simp add: Let_def)
      from Suc.prems(4) have knX: "k \<notin> X" by auto
      with Suc.prems(3) have card: "card (insert k X) = Suc (card X)" by simp
      from counters_consume [OF c1] have c2: "counters s1 (c1 - 1) l1 (card (insert k X))"
        unfolding card .
      from st have ks: "\<bar>trail s ! k\<bar> \<in> stamped_vars s" by (simp add: stamped_vars_def)
      have X1: "insert k X \<subseteq> {i. k \<le> i \<and> i < n \<and> \<bar>trail s1 ! i\<bar> \<in> stamped_vars s1}"
      proof
        fix i assume "i \<in> insert k X"
        then have "i = k \<or> i \<in> X" by simp
        then have "k \<le> i \<and> i < n \<and> \<bar>trail s ! i\<bar> \<in> stamped_vars s"
          using ks kn(2) Suc.prems(4) by auto
        with sub show "i \<in> {i. k \<le> i \<and> i < n \<and> \<bar>trail s1 ! i\<bar> \<in> stamped_vars s1}"
          unfolding t1 by blast
      qed
      from Suc.prems(3) have fin: "finite (insert k X)" by simp
      from Suc.IH [OF r c2 fin X1 kn(1)] obtain X' where
        X': "finite X'" "X' \<subseteq> {i. k' \<le> i \<and> i < n \<and> \<bar>trail s1 ! i\<bar> \<in> stamped_vars s'}"
          "counters s' cur' low' (card X')" "cur' \<le> 1" "k' \<le> k"
        by blast
      from X'(2) have "X' \<subseteq> {i. k' \<le> i \<and> i < n \<and> \<bar>trail s ! i\<bar> \<in> stamped_vars s'}"
        unfolding t1 .
      with X'(1,3,4,5) show ?thesis by (intro exI [of _ X']) simp
    qed
  qed
qed

lemma collect_lower_count:
  assumes "collect_lower k s low acc bj = Some (learned, b)" and "0 \<le> low"
  shows "\<exists>Y. Y \<subseteq> {i. i < k \<and> \<bar>trail s ! i\<bar> \<in> stamped_vars s} \<and> card Y = nat low
           \<and> (b = bj \<or> (\<exists>i\<in>Y. b = levels s \<bar>trail s ! i\<bar>))"
  using assms
proof (induction k arbitrary: low acc bj)
  case 0
  then have "low = 0" "b = bj" by (auto split: if_splits)
  then have "{} \<subseteq> {i. i < 0 \<and> \<bar>trail s ! i\<bar> \<in> stamped_vars s} \<and> card ({} :: nat set) = nat low
           \<and> (b = bj \<or> (\<exists>i\<in>{}. b = levels s \<bar>trail s ! i\<bar>))" by simp
  then show ?case by blast
next
  case (Suc k)
  show ?case
  proof (cases "low \<noteq> 0")
    case False
    with Suc.prems have "b = bj" "low = 0" by simp_all
    then have "{} \<subseteq> {i. i < Suc k \<and> \<bar>trail s ! i\<bar> \<in> stamped_vars s}
           \<and> card ({} :: nat set) = nat low
           \<and> (b = bj \<or> (\<exists>i\<in>{}. b = levels s \<bar>trail s ! i\<bar>))" by simp
    then show ?thesis by blast
  next
    case True
    show ?thesis
    proof (cases "stamped s \<bar>trail s ! k\<bar> = conflicts s")
      case False
      with True Suc.prems have "collect_lower k s low acc bj = Some (learned, b)"
        by (simp add: Let_def)
      from Suc.IH [OF this Suc.prems(2)] obtain Y where
        "Y \<subseteq> {i. i < k \<and> \<bar>trail s ! i\<bar> \<in> stamped_vars s}" "card Y = nat low"
        "b = bj \<or> (\<exists>i\<in>Y. b = levels s \<bar>trail s ! i\<bar>)" by blast
      then have "Y \<subseteq> {i. i < Suc k \<and> \<bar>trail s ! i\<bar> \<in> stamped_vars s} \<and> card Y = nat low
           \<and> (b = bj \<or> (\<exists>i\<in>Y. b = levels s \<bar>trail s ! i\<bar>))" by auto
      then show ?thesis by blast
    next
      case st: True
      let ?bj = "if levels s \<bar>trail s ! k\<bar> > bj then levels s \<bar>trail s ! k\<bar> else bj"
      from st True Suc.prems have c: "collect_lower k s (low - 1) (acc @ [- (trail s ! k)]) ?bj
           = Some (learned, b)"
        by (simp add: Let_def)
      from True Suc.prems(2) have l1: "0 \<le> low - 1" by simp
      from Suc.IH [OF c l1] obtain Y where
        Y: "Y \<subseteq> {i. i < k \<and> \<bar>trail s ! i\<bar> \<in> stamped_vars s}" and cY: "card Y = nat (low - 1)"
        and b: "b = ?bj \<or> (\<exists>i\<in>Y. b = levels s \<bar>trail s ! i\<bar>)" by blast
      from Y have "Y \<subseteq> {i. i < k}" by auto
      then have fin: "finite Y" by (rule finite_subset) simp
      from Y have "k \<notin> Y" by auto
      with fin cY l1 have "card (insert k Y) = nat low" by simp
      moreover from Y st have "insert k Y \<subseteq> {i. i < Suc k \<and> \<bar>trail s ! i\<bar> \<in> stamped_vars s}"
        by (auto simp: stamped_vars_def)
      moreover from b have "b = bj \<or> (\<exists>i\<in>insert k Y. b = levels s \<bar>trail s ! i\<bar>)"
        by (auto split: if_splits)
      ultimately show ?thesis by blast
    qed
  qed
qed

lemma length_filter_mono:
  "(\<And>x. P x \<Longrightarrow> Q x) \<Longrightarrow> length (filter P xs) \<le> length (filter Q xs)"
  by (induction xs) auto

lemma decisions_upto_mono: "i \<le> j \<Longrightarrow> decisions_upto s i \<le> decisions_upto s j"
  unfolding decisions_upto_def by (rule length_filter_mono) simp

lemma decisions_upto_le: "decisions_upto s i \<le> length (control s)"
  by (simp add: decisions_upto_def)

lemma analysis_levels:
  assumes tc: "trail_consistent s" and di: "distinct (map abs (trail s))"
    and lv: "level s = length (control s)"
    and c: "counters s cur low (card X)" and c1: "cur \<le> 1"
    and fx: "finite X"
    and X: "X \<subseteq> {i. k1 \<le> i \<and> i < length (trail s) \<and> \<bar>trail s ! i\<bar> \<in> stamped_vars s}"
    and k2: "k2 < k1" "k1 \<le> length (trail s)" "\<bar>trail s ! k2\<bar> \<in> stamped_vars s"
    and Y: "Y \<subseteq> {i. i < k2 \<and> \<bar>trail s ! i\<bar> \<in> stamped_vars s}" and cy: "card Y = nat low"
  shows "levels s \<bar>trail s ! k2\<bar> = level s"
    and "\<And>i. i \<in> Y \<Longrightarrow> levels s \<bar>trail s ! i\<bar> < level s"
    and "1 \<le> level s"
proof -
  define f where "f = (\<lambda>i. \<bar>trail s ! i\<bar>)"
  define n where "n = length (trail s)"
  define S where "S = stamped_vars s"
  define L where "L = level s"
  define SL where "SL = {v \<in> S. levels s v = L}"
  define SN where "SN = {v \<in> S. levels s v \<noteq> L}"
  note d = countersD [OF c]
  have finS: "finite S" by (simp add: S_def d(1))
  then have finSL: "finite SL" and finSN: "finite SN" by (simp_all add: SL_def SN_def)
  have lvl: "levels s (f i) = decisions_upto s i" if "i < n" for i
    using tc that unfolding trail_consistent_def f_def n_def by blast
  have mono: "levels s (f i) \<le> levels s (f j)" if "i \<le> j" "j < n" for i j
    using lvl [of i] lvl [of j] decisions_upto_mono [OF that(1), of s] that by simp
  have top: "levels s (f i) \<le> L" if "i < n" for i
    using lvl [OF that] decisions_upto_le [of s i] by (simp add: L_def lv)
  have inj: "inj_on f {..<n}"
  proof (rule inj_onI)
    fix i j assume a: "i \<in> {..<n}" "j \<in> {..<n}" "f i = f j"
    show "i = j"
    proof (rule ccontr)
      assume "i \<noteq> j"
      from distinct_map_nth [OF di _ _ this] a show False by (simp add: f_def n_def)
    qed
  qed
  from Y have "Y \<subseteq> {..<k2}" by auto
  then have finY: "finite Y" by (rule finite_subset) simp
  from X have Xn: "X \<subseteq> {..<n}" and Xk: "\<And>i. i \<in> X \<Longrightarrow> k1 \<le> i" and XS: "f ` X \<subseteq> S"
    by (auto simp: n_def f_def S_def)
  from Y k2 have Yn: "Y \<subseteq> {..<n}" and Yk: "\<And>i. i \<in> Y \<Longrightarrow> i < k2" and YS: "f ` Y \<subseteq> S"
    by (auto simp: n_def f_def S_def)
  from k2 have kn: "k2 < n" and kS: "f k2 \<in> S" by (simp_all add: n_def f_def S_def)
  have kX: "k2 \<notin> X" using Xk k2(1) by fastforce
  have kY: "k2 \<notin> Y" using Yk by fastforce
  have XY: "insert k2 X \<inter> Y = {}" using Xk Yk k2(1) by fastforce
  define P where "P = insert k2 X \<union> Y"
  have finP: "finite P" by (simp add: P_def fx finY)
  have Pn: "P \<subseteq> {..<n}" using Xn Yn kn by (auto simp: P_def)
  have cardP: "card P = card X + 1 + card Y"
    unfolding P_def using card_Un_disjoint [OF _ finY XY] fx kX by simp
  have cardfP: "card (f ` P) = card P"
    by (rule card_image) (rule inj_on_subset [OF inj Pn])
  have fPS: "f ` P \<subseteq> S" using XS YS kS by (auto simp: P_def)
  have "S = SL \<union> SN" "SL \<inter> SN = {}" by (auto simp: SL_def SN_def)
  with card_Un_disjoint [OF finSL finSN] have cardS: "card S = card SL + card SN" by simp
  from d(2) have cur: "cur = int (card SL) - int (card X)" by (simp add: SL_def S_def L_def)
  from d(3) cy have cY: "card Y = card SN" by (simp add: SN_def S_def L_def)
  from card_mono [OF finS fPS] cardfP cardP cardS cY have "card X + 1 \<le> card SL" by simp
  moreover from cur c1 have "card SL \<le> card X + 1" by simp
  ultimately have eqSL: "card SL = card X + 1" by simp
  with cardfP cardP cardS cY have "card (f ` P) = card S" by simp
  from card_subset_eq [OF finS fPS this] have fP: "f ` P = S" .
  have uL: "levels s (f k2) = L"
  proof (rule ccontr)
    assume ne: "levels s (f k2) \<noteq> L"
    with top [OF kn] have lt: "levels s (f k2) < L" by simp
    have "SL \<subseteq> f ` X"
    proof
      fix v assume "v \<in> SL"
      then have vS: "v \<in> S" and vl: "levels s v = L" by (simp_all add: SL_def)
      from vS fP obtain i where i: "i \<in> P" "v = f i" by blast
      from i(1) have "i \<in> X \<or> i = k2 \<or> i \<in> Y" by (auto simp: P_def)
      then show "v \<in> f ` X"
      proof (elim disjE)
        assume "i \<in> X" with i(2) show ?thesis by blast
      next
        assume "i = k2" with i(2) vl ne show ?thesis by simp
      next
        assume "i \<in> Y"
        from Yk [OF this] have "i \<le> k2" by simp
        from mono [OF this kn] lt i(2) vl show ?thesis by simp
      qed
    qed
    with finite_imageI [OF fx, of f] have "card SL \<le> card (f ` X)" by (simp add: card_mono)
    also have "\<dots> \<le> card X" by (rule card_image_le [OF fx])
    finally show False using eqSL by simp
  qed
  have XL: "f ` insert k2 X \<subseteq> SL"
  proof
    fix v assume "v \<in> f ` insert k2 X"
    then obtain i where i: "i = k2 \<or> i \<in> X" "v = f i" by auto
    from i(1) Xk k2(1) have le: "k2 \<le> i" by fastforce
    from i(1) Xn kn have il: "i < n" by auto
    from mono [OF le il] top [OF il] uL have "levels s (f i) = L" by simp
    moreover from i(1) XS kS have "f i \<in> S" by auto
    ultimately show "v \<in> SL" by (simp add: SL_def i(2))
  qed
  have "card (f ` insert k2 X) = card (insert k2 X)"
    by (rule card_image) (rule inj_on_subset [OF inj], use Xn kn in auto)
  with fx kX eqSL have "card (f ` insert k2 X) = card SL" by simp
  from card_subset_eq [OF finSL XL this] have SLeq: "f ` insert k2 X = SL" .
  show "levels s \<bar>trail s ! k2\<bar> = level s" using uL by (simp add: f_def L_def)
  show "levels s \<bar>trail s ! i\<bar> < level s" if iY: "i \<in> Y" for i
  proof -
    from iY Yn have il: "i < n" by auto
    have "levels s (f i) \<noteq> L"
    proof
      assume "levels s (f i) = L"
      with iY YS have "f i \<in> SL" by (auto simp: SL_def)
      with SLeq obtain j where j: "j \<in> insert k2 X" "f i = f j" by auto
      from j(1) Xn kn have "j \<in> {..<n}" by auto
      with inj il j(2) have "i = j" by (auto dest: inj_onD)
      with j(1) XY iY show False by auto
    qed
    with top [OF il] show ?thesis by (simp add: f_def L_def)
  qed
  from d(4) [of "f k2"] kS uL show "1 \<le> level s" by (simp add: S_def L_def)
qed


section \<open>The trail invariant across the conflict analysis and in every state of a run\<close>

lemma trail_invariant_restamp:
  assumes rs: "restamp s s'" and st: "\<And>v. stamped s' v \<le> conflicts s'"
    and ti: "trail_invariant s"
  shows "trail_invariant s'"
proof (rule trail_invariantI)
  note d = trail_invariantD [OF ti]
  note f = restamp_fields [OF rs]
  fix i assume "i < length (trail s')"
  then have i: "i < length (trail s)" by (simp add: f)
  from d(1) [OF i] show "values s' (trail s' ! i) = 1" by (simp add: f)
  from d(2) [OF i] show "levels s' \<bar>trail s' ! i\<bar> = decisions_upto s' i"
    by (simp add: f decisions_upto_def)
next
  note d = trail_invariantD [OF ti]
  note f = restamp_fields [OF rs]
  from d(3) show "distinct (map abs (trail s'))" by (simp add: f)
  from d(4) show "sorted_wrt (<) (control s')" by (simp add: f)
  from d(6) show "level s' = length (control s')" by (simp add: f)
  show "p < length (trail s')" if "p \<in> set (control s')" for p
    using d(5) [of p] that by (simp add: f)
  show "(values s' l = 0) = (values s' (- l) = 0)" for l
    using d(7) [of l] by (simp add: f)
  show "stamped s' v \<le> conflicts s'" for v by (rule st)
qed

lemma filter_all_of_length:
  assumes "length (filter P xs) = length xs" and "x \<in> set xs"
  shows "P x"
proof -
  from sum_length_filter_compl [of P xs] assms(1)
  have "filter (\<lambda>x. \<not> P x) xs = []" by simp
  with assms(2) show ?thesis by (simp add: filter_empty_conv)
qed

lemma nth_in_set_drop:
  assumes "n \<le> i" and "i < length xs"
  shows "xs ! i \<in> set (drop n xs)"
proof -
  from assms have "i - n < length (drop n xs)" by simp
  then have "drop n xs ! (i - n) \<in> set (drop n xs)" by (rule nth_mem)
  with assms show ?thesis by simp
qed

lemma trail_invariant_learn_and_assign:
  assumes ti: "trail_invariant s" and v0: "values s (- uip) = 0" and nz: "uip \<noteq> 0"
    and lz: "0 \<notin> set learned1"
  shows "trail_invariant (learn_and_assign uip learned1 s)"
proof (cases "learned1 = []")
  case True
  from nz have "- uip \<noteq> 0" by simp
  from trail_invariant_assign [OF ti v0 this, of None] True show ?thesis
    by (simp add: learn_and_assign_def)
next
  case False
  then obtain a b rest where e: "learned1 @ [- uip] = a # b # rest"
    by (cases learned1; cases "tl learned1") auto
  from nz lz have z: "0 \<notin> set (learned1 @ [- uip])" by simp
  then have ab: "a \<noteq> 0" "b \<noteq> 0" unfolding e by auto
  from add_clause_watched_fields(1) [OF ab, of rest s] v0
  have v1: "values (add_clause (learned1 @ [- uip]) s) (- uip) = 0" unfolding e by simp
  from nz have "- uip \<noteq> 0" by simp
  from trail_invariant_assign [OF trail_invariant_add_clause [OF ti z] v1 this, of "Some (added s)"]
    False show ?thesis by (simp add: learn_and_assign_def)
qed

lemma analyze_conflict_unwinds:
  assumes ti: "trail_invariant s"
    and strict: "\<And>v. stamped s v < conflicts s"
    and ac: "analyze_conflict c s = Some (s2, uip, learned0, learned1, b)"
  shows "trail_invariant s2" and "b < length (control s2)"
    and "uip \<in> set (drop (control s2 ! b) (trail s2))"
    and "levels s2 \<bar>uip\<bar> = level s2"
proof -
  from ac obtain s1 cur low k1 cur2 low2 k2 where
    a: "analyze_clause c (s, 0, 0) = (s1, cur, low)"
    and r: "resolve_loop (length (trail s1)) (s1, cur, low) = Some (k1, s2, cur2, low2)"
    and f: "find_uip k1 s2 = Some (uip, k2)"
    and cl: "collect_lower k2 s2 low2 [] 0 = Some (learned0, b)"
    by (rule analyze_conflict_result)
  note d = trail_invariantD [OF ti]
  have "stamped s v \<noteq> conflicts s" for v using strict [of v] by simp
  then have S0: "stamped_vars s = {}" by (simp add: stamped_vars_def)
  have c0: "counters s 0 0 (card ({} :: nat set))"
    unfolding counters_def S0 using d(8) by simp
  from counters_analyze_clause [OF c0 a] have c1: "counters s1 cur low (card ({} :: nat set))"
    by blast
  from counters_resolve_loop [OF r c1 finite.emptyI empty_subsetI order_refl] obtain X where
    fx: "finite X"
    and X1: "X \<subseteq> {i. k1 \<le> i \<and> i < length (trail s1) \<and> \<bar>trail s1 ! i\<bar> \<in> stamped_vars s2}"
    and c2: "counters s2 cur2 low2 (card X)" and cu: "cur2 \<le> 1"
    and k1: "k1 \<le> length (trail s1)"
    by blast
  from restamp_fields(3) [OF restamp_resolve_loop [OF r]] have t12: "trail s1 = trail s2"
    by simp
  note X = X1 [unfolded t12]
  note k1' = k1 [unfolded t12]
  from find_uip_Some [OF f] have k2: "k2 < k1" and u: "uip = trail s2 ! k2"
    and us: "\<bar>trail s2 ! k2\<bar> \<in> stamped_vars s2"
    by (auto simp: stamped_vars_def)
  from countersD(3) [OF c2] have l0: "0 \<le> low2" by simp
  from collect_lower_count [OF cl l0] obtain Y where
    Y: "Y \<subseteq> {i. i < k2 \<and> \<bar>trail s2 ! i\<bar> \<in> stamped_vars s2}" and cy: "card Y = nat low2"
    and bc: "b = 0 \<or> (\<exists>i\<in>Y. b = levels s2 \<bar>trail s2 ! i\<bar>)"
    by blast
  from trail_invariant_restamp [OF restamp_analyze_conflict [OF ac] countersD(5) [OF c2] ti]
  show ti2: "trail_invariant s2" .
  note d2 = trail_invariantD [OF ti2]
  from ti2 have tc2: "trail_consistent s2" unfolding trail_invariant_def by blast
  note al = analysis_levels [OF tc2 d2(3) d2(6) c2 cu fx X k2 k1' us Y cy]
  from al(1) u show "levels s2 \<bar>uip\<bar> = level s2" by simp
  from bc al(2) al(3) have "b < level s2" by auto
  with d2(6) show bl: "b < length (control s2)" by simp
  from k2 k1' have kl: "k2 < length (trail s2)" by simp
  from d2(2) [OF kl] al(1) d2(6)
  have "length (filter (\<lambda>p. p \<le> k2) (control s2)) = length (control s2)"
    by (simp add: decisions_upto_def)
  from filter_all_of_length [OF this nth_mem [OF bl]] have "control s2 ! b \<le> k2" .
  from nth_in_set_drop [OF this kl] u
  show "uip \<in> set (drop (control s2 ! b) (trail s2))" by simp
qed

lemma trail_invariant_analyze:
  assumes ti: "trail_invariant s" and bi: "basic_invariant s"
    and strict: "\<And>v. stamped s v < conflicts s" and an: "analyze c s = Some s'"
  shows "trail_invariant s'"
proof -
  from an obtain s2 uip learned0 learned1 b s3 where
    ac: "analyze_conflict c s = Some (s2, uip, learned0, learned1, b)"
    and bt: "backtrack b s2 = Some s3"
    and s': "s' = learn_and_assign uip learned1 s3
     \<or> s' = (learn_and_assign uip learned1 s3)
              \<lparr>backjumps := backjumps (learn_and_assign uip learned1 s3) + 1\<rparr>"
    by (rule analyze_result)
  note u = analyze_conflict_unwinds [OF ti strict ac]
  from bi have t: "0 \<notin> set (trail s)" unfolding basic_invariant_def by blast
  from analyze_conflict_literals [OF ac] t have nz: "uip \<noteq> 0" and lz: "0 \<notin> set learned1"
    by auto
  note e3 = backtrack_eq(3) [OF bt]
  from u(3) have v0: "values s3 (- uip) = 0" by (simp add: e3 values_unassign_all)
  from trail_invariant_backtrack [OF u(1) bt] have ti3: "trail_invariant s3" .
  from trail_invariant_learn_and_assign [OF ti3 v0 nz lz]
  have t4: "trail_invariant (learn_and_assign uip learned1 s3)" .
  have "trail_invariant ((learn_and_assign uip learned1 s3)
              \<lparr>backjumps := backjumps (learn_and_assign uip learned1 s3) + 1\<rparr>)"
    by (rule trail_invariant_frame [OF _ _ _ _ _ _ _ t4]) simp_all
  with t4 s' show ?thesis by blast
qed

lemma reachable_trail_invariant: "reachable s \<Longrightarrow> trail_invariant s"
proof (induction rule: reachable.induct)
  case (reachable_initialize n lim)
  show ?case by (rule trail_invariant_initialize)
next
  case (reachable_add_clause s lits)
  then show ?case by (simp add: trail_invariant_add_clause)
next
  case (reachable_propagate s r s')
  from trail_invariant_propagate [OF reachable_propagate.IH
      reachable_basic_invariant [OF reachable_propagate.hyps(1)] reachable_propagate.hyps(2)]
  show ?case by blast
next
  case (reachable_decide s s')
  from trail_invariant_decide [OF reachable_decide.IH
      reachable_basic_invariant [OF reachable_decide.hyps(1)] reachable_decide.hyps(2)]
  show ?case .
next
  case (reachable_analyze s c s1 s')
  note bi = reachable_basic_invariant [OF reachable_analyze.hyps(1)]
  from trail_invariant_propagate [OF reachable_analyze.IH bi reachable_analyze.hyps(2)]
  have ti1: "trail_invariant s1" and st: "stamped s1 = stamped s"
    and cf: "conflicts s1 = conflicts s + 1" by simp_all
  from basic_invariant_propagate [OF bi reachable_analyze.hyps(2)] have bi1: "basic_invariant s1" .
  have strict: "stamped s1 v < conflicts s1" for v
    using trail_invariantD(8) [OF reachable_analyze.IH, of v] by (simp add: st cf)
  from trail_invariant_analyze [OF ti1 bi1 strict reachable_analyze.hyps(3)] show ?case .
qed

lemma decisions_upto_card:
  assumes "sorted_wrt (<) (control s)"
  shows "decisions_upto s i = card {p \<in> set (control s). p \<le> i}"
proof -
  from assms have "distinct (control s)" by (simp add: strict_sorted_iff)
  then have "distinct (filter (\<lambda>p. p \<le> i) (control s))" by simp
  from distinct_card [OF this] show ?thesis by (simp add: decisions_upto_def)
qed

lemma trail_consistent_sorted_frame:
  assumes "values s' = values s" "trail s' = trail s" "levels s' = levels s"
    "control s' = control s" and "trail_consistent s \<and> sorted_wrt (<) (control s)"
  shows "trail_consistent s' \<and> sorted_wrt (<) (control s')"
  using assms(5) unfolding trail_consistent_def decisions_upto_def by (simp add: assms(1-4))

lemma quiescent_trail_consistent:
  "quiescent s \<Longrightarrow> trail_consistent s \<and> sorted_wrt (<) (control s)"
proof (induction rule: quiescent.induct)
  case (quiescent_reachable s)
  from reachable_trail_invariant [OF this] show ?case unfolding trail_invariant_def by blast
next
  case (quiescent_add_clause s lits)
  from trail_invariant_store_clause [OF reachable_trail_invariant [OF this]]
  show ?case unfolding trail_invariant_def by blast
next
  case (quiescent_decide s v)
  note d = trail_invariantD [OF reachable_trail_invariant [OF quiescent_decide(1)]]
  let ?s1 = "s\<lparr>decisions := decisions s + 1, searched := v, level := level s + 1,
                  control := control s @ [length (trail s)], stamped := (stamped s)(v := 0)\<rparr>"
  have "values ?s1 (trail ?s1 ! i) = 1 \<and> levels ?s1 \<bar>trail ?s1 ! i\<bar> = decisions_upto ?s1 i"
    if "i < length (trail ?s1)" for i
    using that d(1) [of i] d(2) [of i] by (simp add: decisions_upto_def)
  moreover from d(4) d(5) have "sorted_wrt (<) (control ?s1)" by (auto simp: sorted_wrt_append)
  ultimately show ?case unfolding trail_consistent_def by blast
next
  case (quiescent_analyze_stamped s c s1 s2 uip learned0 learned1 b)
  note bi = reachable_basic_invariant [OF quiescent_analyze_stamped(1)]
  note ti = reachable_trail_invariant [OF quiescent_analyze_stamped(1)]
  from trail_invariant_propagate [OF ti bi quiescent_analyze_stamped(2)]
  have ti1: "trail_invariant s1" and st: "stamped s1 = stamped s"
    and cf: "conflicts s1 = conflicts s + 1" by simp_all
  have strict: "stamped s1 v < conflicts s1" for v
    using trail_invariantD(8) [OF ti, of v] by (simp add: st cf)
  from analyze_conflict_unwinds(1) [OF ti1 strict quiescent_analyze_stamped(3)]
  show ?case unfolding trail_invariant_def by blast
next
  case (quiescent_analyze_backtracked s c s1 s2 uip learned0 learned1 b s3)
  note bi = reachable_basic_invariant [OF quiescent_analyze_backtracked(1)]
  note ti = reachable_trail_invariant [OF quiescent_analyze_backtracked(1)]
  from trail_invariant_propagate [OF ti bi quiescent_analyze_backtracked(2)]
  have ti1: "trail_invariant s1" and st: "stamped s1 = stamped s"
    and cf: "conflicts s1 = conflicts s + 1" by simp_all
  have strict: "stamped s1 v < conflicts s1" for v
    using trail_invariantD(8) [OF ti, of v] by (simp add: st cf)
  from trail_invariant_backtrack [OF
      analyze_conflict_unwinds(1) [OF ti1 strict quiescent_analyze_backtracked(3)]
      quiescent_analyze_backtracked(4)]
  show ?case unfolding trail_invariant_def by blast
next
  case (quiescent_analyze_learned s c s1 s2 uip learned0 learned1 b s3)
  note bi = reachable_basic_invariant [OF quiescent_analyze_learned(1)]
  note ti = reachable_trail_invariant [OF quiescent_analyze_learned(1)]
  from trail_invariant_propagate [OF ti bi quiescent_analyze_learned(2)]
  have ti1: "trail_invariant s1" and st: "stamped s1 = stamped s"
    and cf: "conflicts s1 = conflicts s + 1" by simp_all
  from basic_invariant_propagate [OF bi quiescent_analyze_learned(2)]
  have "0 \<notin> set (trail s1)" unfolding basic_invariant_def by blast
  with analyze_conflict_literals [OF quiescent_analyze_learned(3)]
  have z: "0 \<notin> set (learned1 @ [- uip])" by auto
  have strict: "stamped s1 v < conflicts s1" for v
    using trail_invariantD(8) [OF ti, of v] by (simp add: st cf)
  from trail_invariant_add_clause [OF trail_invariant_backtrack [OF
      analyze_conflict_unwinds(1) [OF ti1 strict quiescent_analyze_learned(3)]
      quiescent_analyze_learned(4)] z]
  show ?case unfolding trail_invariant_def by blast
qed

lemma reachable_fold_add_clause:
  "reachable s \<Longrightarrow> \<forall>c\<in>set cs. 0 \<notin> set c \<Longrightarrow> reachable (fold add_clause cs s)"
  by (induction cs arbitrary: s) (simp_all add: reachable_add_clause)

lemma reachable_parse: "\<forall>c\<in>set cs. 0 \<notin> set c \<Longrightarrow> reachable (parse n lim cs)"
  unfolding parse_def by (rule reachable_fold_add_clause [OF reachable_initialize])

lemma reachable_solve_loop_aux:
  assumes "solve_loop s = Some y"
  shows "reachable s \<longrightarrow> reachable (snd y)"
  using assms
proof (rule solve_loop.raw_induct [rotated])
  fix solve_loop' :: "solver \<Rightarrow> (int \<times> solver) option" and s sa
  assume IH: "\<And>x y. solve_loop' x = Some y \<Longrightarrow> reachable x \<longrightarrow> reachable (snd y)"
  assume body: "(case propagate s of
        None \<Rightarrow> None
      | Some (Some conflict, s1) \<Rightarrow>
          if level s1 = 0 then Some (unsatisfiable, s1)
          else (case analyze conflict s1 of None \<Rightarrow> None | Some s2 \<Rightarrow> solve_loop' s2)
      | Some (None, s1) \<Rightarrow>
          if satisfied s1 then Some (satisfiable, s1)
          else if conflicts s1 \<ge> limit s1 then Some (unknown, s1)
          else (case decide s1 of None \<Rightarrow> None | Some s2 \<Rightarrow> solve_loop' s2)) = Some sa"
  show "reachable s \<longrightarrow> reachable (snd sa)"
  proof
    assume r: "reachable s"
    from body obtain c s1 where p: "propagate s = Some (c, s1)"
      by (cases "propagate s") auto
    note r1 = reachable_propagate [OF r p]
    show "reachable (snd sa)"
    proof (cases c)
      case None
      show ?thesis
      proof (cases "satisfied s1 \<or> conflicts s1 \<ge> limit s1")
        case True
        with body p None have "snd sa = s1" by (auto split: if_splits)
        with r1 show ?thesis by simp
      next
        case False
        with body p None obtain s2 where d: "decide s1 = Some s2"
          and l: "solve_loop' s2 = Some sa"
          by (cases "decide s1") auto
        from IH [OF l] reachable_decide [OF r1 d] show ?thesis by blast
      qed
    next
      case (Some conflict)
      show ?thesis
      proof (cases "level s1 = 0")
        case True
        with body p Some have "snd sa = s1" by auto
        with r1 show ?thesis by simp
      next
        case False
        with body p Some obtain s2 where a: "analyze conflict s1 = Some s2"
          and l: "solve_loop' s2 = Some sa"
          by (cases "analyze conflict s1") auto
        from IH [OF l] reachable_analyze [OF r p [unfolded Some] a] show ?thesis by blast
      qed
    qed
  qed
qed

lemma reachable_solve:
  assumes "\<forall>c\<in>set cs. 0 \<notin> set c" and "solve (parse n lim cs) = Some (res, s')"
  shows "reachable s'"
proof (cases "empty_clause (parse n lim cs) \<noteq> None")
  case True
  with assms(2) have "s' = parse n lim cs" by (simp add: solve_def)
  with reachable_parse [OF assms(1)] show ?thesis by simp
next
  case False
  with assms(2) have "solve_loop (parse n lim cs) = Some (res, s')" by (simp add: solve_def)
  from reachable_solve_loop_aux [OF this] reachable_parse [OF assms(1)] show ?thesis by simp
qed


section \<open>The search driver's transitions\<close>

text \<open>
  Claim C4.  One round of the loop of \<^verbatim>\<open>solve\<close>, for each result \<open>(r, s1)\<close> of
  \<^verbatim>\<open>propagate\<close>: a conflict at level 0 returns \<open>unsatisfiable\<close> (20); a conflict at a
  level of at least 1 runs \<^verbatim>\<open>analyze\<close> and enters the loop again, which starts with
  \<^verbatim>\<open>propagate\<close>; no conflict with a trail of \<open>variables\<close> literals returns
  \<open>satisfiable\<close> (10); no conflict, an incomplete trail and \<open>conflicts \<ge> limit\<close>
  returns \<open>unknown\<close> (0), and the process then exits with 0 and an empty \<^verbatim>\<open>stderr\<close>;
  only in the remaining case the loop calls \<^verbatim>\<open>decide\<close>.
\<close>

theorem solve_loop_transitions:
  assumes "propagate s = Some (r, s1)"
  shows "(\<forall>c. r = Some c \<and> level s1 = 0 \<longrightarrow> solve_loop s = Some (unsatisfiable, s1))
       \<and> (\<forall>c. r = Some c \<and> level s1 \<ge> 1 \<longrightarrow>
             solve_loop s = (case analyze c s1 of None \<Rightarrow> None | Some s2 \<Rightarrow> solve_loop s2))
       \<and> (r = None \<and> satisfied s1 \<longrightarrow> solve_loop s = Some (satisfiable, s1))
       \<and> (r = None \<and> \<not> satisfied s1 \<and> conflicts s1 \<ge> limit s1 \<longrightarrow>
             solve_loop s = Some (unknown, s1) \<and> main_exit unknown s1 = (Some 0, []))
       \<and> (r = None \<and> \<not> satisfied s1 \<and> conflicts s1 < limit s1 \<longrightarrow>
             solve_loop s = (case decide s1 of None \<Rightarrow> None | Some s2 \<Rightarrow> solve_loop s2))
       \<and> unsatisfiable = 20 \<and> satisfiable = 10 \<and> unknown = 0"
  using assms
  by (subst (1 2 3 4 5) solve_loop.simps)
     (auto simp: unknown_def satisfiable_def unsatisfiable_def main_exit_def)

theorem solve_loop_transitions_witness:
  "\<exists>s1. propagate (parse 1 1000 [[1]]) = Some (None, s1) \<and> satisfied s1
        \<and> solve_loop (parse 1 1000 [[1]]) = Some (satisfiable, s1)"
proof -
  have "case propagate (parse 1 1000 [[1]]) of
          Some (None, s1) \<Rightarrow> satisfied s1 | _ \<Rightarrow> False"
    by code_simp
  then obtain s1 where p: "propagate (parse 1 1000 [[1]]) = Some (None, s1)"
    and sat: "satisfied s1"
    by (auto split: option.splits prod.splits)
  from solve_loop_transitions [OF p] sat p show ?thesis by blast
qed

section \<open>The side effects of adding a clause\<close>




section \<open>The backjump counter\<close>

text \<open>
  What \<^verbatim>\<open>analyze\<close> does with \<^verbatim>\<open>backjumps\<close>: \<^verbatim>\<open>backtrack\<close> has set \<^verbatim>\<open>level\<close> to the
  backjump level before the comparison \<^verbatim>\<open>backjump < level - 1\<close>, so the counter is
  incremented exactly when the backjump level is 0, whatever the conflict level was.
\<close>

lemma level_assign [simp]: "level (assign lit r s) = level s"
  by (simp add: assign_def)

lemma level_add_clause [simp]: "level (add_clause lits s) = level s"
  unfolding add_clause_def fold_connect_literal
  by (simp add: Let_def watch_push_def)

lemma backjumps_assign [simp]: "backjumps (assign lit r s) = backjumps s"
  by (simp add: assign_def)

lemma backjumps_add_clause [simp]: "backjumps (add_clause lits s) = backjumps s"
  unfolding add_clause_def fold_connect_literal
  by (simp add: Let_def watch_push_def)

lemma backjumps_unassign_all [simp]: "backjumps (unassign_all ls s) = backjumps s"
  by (induction ls arbitrary: s) (simp_all add: unassign_def)

lemma backtrack_level: "backtrack b s = Some s' \<Longrightarrow> level s' = b \<and> backjumps s' = backjumps s"
  by (auto simp: backtrack_def Let_def split: if_splits)

lemma analyze_backjumps:
  assumes "analyze_conflict c s = Some (s2, uip, learned0, learned1, b)"
    and "backjumps s2 = backjumps s" and "analyze c s = Some s'" and "b < 2 ^ 32"
  shows "backjumps s' = (if b = 0 then backjumps s + 1 else backjumps s)"
proof -
  from assms(1,3) obtain s3 where bt: "backtrack b s2 = Some s3"
    by (auto simp: analyze_def Let_def split: option.splits)
  from backtrack_level [OF bt] have l3: "level s3 = b" and b3: "backjumps s3 = backjumps s2"
    by simp_all
  have wrap: "(int b < (int b - 1) mod 2 ^ 32) = (b = 0)"
  proof (cases "b = 0")
    case True
    then show ?thesis by simp
  next
    case False
    with assms(4) have "(int b - 1) mod 2 ^ 32 = int b - 1"
      by (intro mod_pos_pos_trivial) auto
    with False show ?thesis by simp
  qed
  from assms(1,3) bt wrap show ?thesis
    by (auto simp: analyze_def Let_def l3 b3 assms(2) split: if_splits)
qed

text \<open>
  Claim C6, at two inputs.

  \<^item> Clauses \<open>(-1 2) (-1 -2)\<close>, 2 variables.  The decision 1 (level 1) forces 2 by
    clause 0, and clause 1 is the conflict, at level \<open>L = 1\<close>.  The UIP is 1, no
    other literal is learned, the backjump level is \<open>B = 0\<close>, so \<open>L - B = 1\<close>.
    \<^verbatim>\<open>backtrack\<close> sets \<open>level\<close> to 0, the test \<^verbatim>\<open>backjump < level - 1\<close> is
    \<open>0 < 2 ^ 32 - 1\<close>, and \<^verbatim>\<open>backjumps\<close> is incremented.
  \<^item> Clauses \<open>(-3 4) (-3 -4 -1)\<close>, 4 variables.  The decisions 1, 2 and 3 have the
    levels 1, 2 and 3; propagating 3 forces 4 by clause 0, and clause 1 is the
    conflict, at level \<open>L = 3\<close>.  The UIP is 3, the learned literal \<open>-1\<close> has level 1,
    the backjump level is \<open>B = 1\<close>, so \<open>L - B = 2\<close>.  \<^verbatim>\<open>backtrack\<close> sets \<open>level\<close> to 1,
    the test is \<open>1 < 0\<close>, and \<^verbatim>\<open>backjumps\<close> is unchanged.
\<close>

theorem analyze_backjumps_counter_cases:
  "(case decide (parse 2 1000 [[- 1, 2], [- 1, - 2]]) of None \<Rightarrow> False | Some d1 \<Rightarrow>
    (case propagate d1 of
       Some (Some c, s) \<Rightarrow>
         level s = 1 \<and> backjumps s = 0
         \<and> (case analyze_conflict c s of Some (_, _, _, _, b) \<Rightarrow> b = 0 | None \<Rightarrow> False)
         \<and> (case analyze c s of Some s' \<Rightarrow> backjumps s' = 1 | None \<Rightarrow> False)
     | _ \<Rightarrow> False))
   \<and>
   (case decide (parse 4 1000 [[- 3, 4], [- 3, - 4, - 1]]) of None \<Rightarrow> False | Some d1 \<Rightarrow>
    (case decide d1 of None \<Rightarrow> False | Some d2 \<Rightarrow>
    (case decide d2 of None \<Rightarrow> False | Some d3 \<Rightarrow>
    (case propagate d3 of
       Some (Some c, s) \<Rightarrow>
         level s = 3 \<and> backjumps s = 0
         \<and> (case analyze_conflict c s of Some (_, _, _, _, b) \<Rightarrow> b = 1 | None \<Rightarrow> False)
         \<and> (case analyze c s of Some s' \<Rightarrow> backjumps s' = 0 | None \<Rightarrow> False)
     | _ \<Rightarrow> False))))"
  by code_simp


section \<open>Every operation keeps the assignment sign consistent\<close>

text \<open>
  Claim C10.  The assignment array is sign consistent (\<open>sign_consistent\<close>: for every
  literal \<open>l\<close> with \<open>1 \<le> |l| \<le> variables\<close>, \<open>values l = - values (- l)\<close>, and both
  entries are 0, or one is 1 and the other -1) after \<^verbatim>\<open>initialize\<close>, and each of
  \<^verbatim>\<open>add_clause\<close>, \<^verbatim>\<open>propagate\<close>, \<^verbatim>\<open>decide\<close>, \<^verbatim>\<open>analyze\<close> and \<^verbatim>\<open>backtrack\<close> preserves
  it: whenever the operation returns, the state it returns is sign consistent.
\<close>

theorem sign_consistent_preserved:
  "sign_consistent (initialize n lim)
   \<and> (sign_consistent s \<longrightarrow> sign_consistent (add_clause lits s))
   \<and> (sign_consistent s \<and> propagate s = Some (r, s1) \<longrightarrow> sign_consistent s1)
   \<and> (sign_consistent s \<and> decide s = Some s2 \<longrightarrow> sign_consistent s2)
   \<and> (sign_consistent s \<and> analyze c s = Some s3 \<longrightarrow> sign_consistent s3)
   \<and> (sign_consistent s \<and> backtrack k s = Some s4 \<longrightarrow> sign_consistent s4)"
  using sign_consistent_initialize sign_consistent_add_clause sign_consistent_propagate
    sign_consistent_decide sign_consistent_analyze sign_consistent_backtrack
  by blast

theorem sign_consistent_preserved_witness:
  "\<exists>d s1 s3 s4.
     decide (parse 2 1000 [[- 1, 2], [- 1, - 2]]) = Some d
     \<and> propagate d = Some (Some 1, s1)
     \<and> analyze 1 s1 = Some s3
     \<and> backtrack 0 s1 = Some s4
     \<and> sign_consistent (parse 2 1000 [[- 1, 2], [- 1, - 2]])
     \<and> sign_consistent d \<and> sign_consistent s1 \<and> sign_consistent s3 \<and> sign_consistent s4"
proof -
  note P = sign_consistent_preserved
  define s0 where "s0 = parse 2 1000 [[- 1, 2], [- 1, - 2]]"
  have run: "case decide (parse 2 1000 [[- 1, 2], [- 1, - 2]]) of None \<Rightarrow> False | Some d \<Rightarrow>
          (case propagate d of
             Some (Some c, s1) \<Rightarrow> c = 1
               \<and> (case analyze 1 s1 of None \<Rightarrow> False | Some _ \<Rightarrow> True)
               \<and> (case backtrack 0 s1 of None \<Rightarrow> False | Some _ \<Rightarrow> True)
           | _ \<Rightarrow> False)"
    by code_simp
  then obtain d where d: "decide s0 = Some d"
    and r1: "case propagate d of
             Some (Some c, s1) \<Rightarrow> c = 1
               \<and> (case analyze 1 s1 of None \<Rightarrow> False | Some _ \<Rightarrow> True)
               \<and> (case backtrack 0 s1 of None \<Rightarrow> False | Some _ \<Rightarrow> True)
           | _ \<Rightarrow> False"
    unfolding s0_def by (cases "decide (parse 2 1000 [[- 1, 2], [- 1, - 2]])") simp_all
  from r1 obtain s1 where p: "propagate d = Some (Some 1, s1)"
    and r2: "(case analyze 1 s1 of None \<Rightarrow> False | Some _ \<Rightarrow> True)"
            "(case backtrack 0 s1 of None \<Rightarrow> False | Some _ \<Rightarrow> True)"
    by (cases "propagate d") (auto split: prod.splits option.splits)
  from r2 obtain s3 s4 where a: "analyze 1 s1 = Some s3" and b: "backtrack 0 s1 = Some s4"
    by (cases "analyze 1 s1"; cases "backtrack 0 s1") simp_all
  have i: "sign_consistent (initialize 2 1000)"
    by (rule P [THEN conjunct1])
  have c1: "sign_consistent (add_clause [- 1, 2] (initialize 2 1000))"
    by (rule P [THEN conjunct2, THEN conjunct1, rule_format, OF i])
  have "sign_consistent (add_clause [- 1, - 2] (add_clause [- 1, 2] (initialize 2 1000)))"
    by (rule P [THEN conjunct2, THEN conjunct1, rule_format, OF c1])
  then have c0: "sign_consistent s0"
    by (simp add: parse_def s0_def)
  have cd: "sign_consistent d"
    by (rule P [THEN conjunct2, THEN conjunct2, THEN conjunct2, THEN conjunct1, rule_format,
          OF conjI [OF c0 d]])
  have cs1: "sign_consistent s1"
    by (rule P [THEN conjunct2, THEN conjunct2, THEN conjunct1, rule_format,
          OF conjI [OF cd p]])
  have cs3: "sign_consistent s3"
    by (rule P [THEN conjunct2, THEN conjunct2, THEN conjunct2, THEN conjunct2, THEN conjunct1,
          rule_format, OF conjI [OF cs1 a]])
  have cs4: "sign_consistent s4"
    by (rule P [THEN conjunct2, THEN conjunct2, THEN conjunct2, THEN conjunct2, THEN conjunct2,
          rule_format, OF conjI [OF cs1 b]])
  from d p a b c0 cd cs1 cs3 cs4 show ?thesis unfolding s0_def by blast
qed


section \<open>A run that returns satisfiable with a falsified clause\<close>

text \<open>
  Claim C1, at the formula \<open>(-1 3 4) (-2 5 6) (-1 -2) (-1 -2 7)\<close> over 7 variables
  (clauses 0 to 3).  No clause is empty.  After parsing, the watch list of \<open>-1\<close> is
  \<open>[0, 2, 3]\<close> and that of \<open>-2\<close> is \<open>[1, 2, 3]\<close>.  The run of \<^verbatim>\<open>solve\<close>:

  \<^item> \<^verbatim>\<open>decide\<close> assigns 1.  \<^verbatim>\<open>propagate\<close> reads the watch list of \<open>-1\<close>.  Position 0,
    clause 0: 4 is a new watch, the clause is erased from the list, which becomes
    \<open>[2, 3]\<close> in the same storage.  Position 1 now holds clause 3, so clause 2 =
    \<open>(-1 -2)\<close> is passed over; clause 3 finds the new watch 7 and is erased, the list
    becomes \<open>[2]\<close>.  Position 2, behind the end of the list, still holds clause 3,
    which now watches 7 and \<open>-2\<close>: no further literal can be watched, 7 is unassigned
    and is assigned with clause 3 as reason.  Propagating 7 visits nothing.
  \<^item> \<^verbatim>\<open>decide\<close> assigns 2.  \<^verbatim>\<open>propagate\<close> reads the watch list of \<open>-2\<close>.  Position 0,
    clause 1: 6 is a new watch, the clause is erased, the list becomes \<open>[2, 3]\<close>.
    Positions 1 and 2 hold clause 3, whose other watch 7 is true.  Clause 2 is passed
    over again; both of its literals are false now.
  \<^item> \<^verbatim>\<open>decide\<close> assigns 3, 4, 5 and 6, whose negations have empty watch lists.

  All seven variables are true, \<^verbatim>\<open>solve\<close> returns \<open>satisfiable\<close>, and clause 2 has no
  true literal; \<^verbatim>\<open>check_model\<close> reports it and \<^verbatim>\<open>main\<close> aborts.
\<close>

theorem solve_satisfiable_but_clause_false:
  "empty_clause (parse 7 1000 [[- 1, 3, 4], [- 2, 5, 6], [- 1, - 2], [- 1, - 2, 7]]) = None
   \<and> (case solve (parse 7 1000 [[- 1, 3, 4], [- 2, 5, 6], [- 1, - 2], [- 1, - 2, 7]]) of
        None \<Rightarrow> False
      | Some (res, s) \<Rightarrow>
          res = satisfiable \<and> satisfied s \<and> trail s = [1, 7, 2, 3, 4, 5, 6]
          \<and> clauses s = [0, 1, 2, 3] \<and> literals (heap s 2) = [- 1, - 2]
          \<and> values s (- 1) = - 1 \<and> values s (- 2) = - 1
          \<and> \<not> satisfied_clause s 2
          \<and> check_model s = Some 2
          \<and> main_exit res s = (None, [[- 1, - 2]]))"
  by code_simp


section \<open>What one clause visit does\<close>

text \<open>
  Claim C2 as the code has it, for a trail literal \<open>lit\<close> and a clause \<open>c\<close> that watches
  \<open>- lit\<close>, \<open>other_watch\<close> being its other watched literal.  The loop body first tests
  the blocker of the clause: if the blocker or the other watched literal is true,
  the clause, the watch lists and the rest of the state are unchanged.  Otherwise, if
  the clause holds a literal that is not watched and not false, the first such
  literal \<open>x\<close> takes the watch: the clause is erased from the watch list of \<open>- lit\<close>
  and appended to that of \<open>x\<close>, and a watched position that held \<open>- lit\<close> holds \<open>x\<close>,
  the other one and all other clauses being unchanged.  Otherwise, if the other
  watched literal is false, the conflict counter is incremented and the loop over
  the watch list returns the clause at once; if it is unassigned, it is assigned
  with the clause as reason at the current level and the loop goes on; in both
  cases the watch lists and the two watched positions stay as they are.
\<close>

theorem visit_clause_cases:
  assumes "watch1 (heap s c) = - lit \<or> watch2 (heap s c) = - lit"
  shows
   "(values s (blocker (heap s c)) = 1 \<or> values s (other_watch s lit c) = 1 \<longrightarrow>
       visit lit c s buf = Some (None, s, buf))
    \<and> (values s (blocker (heap s c)) \<noteq> 1 \<and> values s (other_watch s lit c) \<noteq> 1
        \<and> replacement s c = Some x \<longrightarrow>
         (\<exists>s'. visit lit c s buf = Some (None, s', compact (removeAll c (watched s (- lit))) buf)
           \<and> watched s' =
               (watched s)(- lit := removeAll c (watched s (- lit)), x := watched s x @ [c])
           \<and> (watch1 (heap s c) = - lit \<and> watch1 (heap s' c) = x
                 \<and> watch2 (heap s' c) = watch2 (heap s c)
               \<or> watch2 (heap s c) = - lit \<and> watch2 (heap s' c) = x
                 \<and> watch1 (heap s' c) = watch1 (heap s c))
           \<and> (\<forall>c'. c' \<noteq> c \<longrightarrow> heap s' c' = heap s c')
           \<and> values s' = values s \<and> trail s' = trail s \<and> conflicts s' = conflicts s))
    \<and> (values s (blocker (heap s c)) \<noteq> 1 \<and> replacement s c = None
        \<and> values s (other_watch s lit c) = - 1 \<longrightarrow>
         (\<exists>s'. visit lit c s buf = Some (Some c, s', buf)
           \<and> (\<forall>i n. i < n \<and> buf ! i = c \<longrightarrow> visit_all lit i n s buf = Some (Some c, s'))
           \<and> watched s' = watched s
           \<and> watch1 (heap s' c) = watch1 (heap s c) \<and> watch2 (heap s' c) = watch2 (heap s c)
           \<and> (\<forall>c'. c' \<noteq> c \<longrightarrow> heap s' c' = heap s c')
           \<and> values s' = values s \<and> trail s' = trail s \<and> conflicts s' = conflicts s + 1))
    \<and> (values s (blocker (heap s c)) \<noteq> 1 \<and> replacement s c = None
        \<and> values s (other_watch s lit c) = 0 \<longrightarrow>
         (\<exists>s'. visit lit c s buf = Some (None, s', buf)
           \<and> (\<forall>i n. i < n \<and> buf ! i = c \<longrightarrow>
                 visit_all lit i n s buf = visit_all lit (i + 1) n s' buf)
           \<and> trail s' = trail s @ [other_watch s lit c]
           \<and> reasons s' \<bar>other_watch s lit c\<bar> = Some c
           \<and> levels s' \<bar>other_watch s lit c\<bar> = level s
           \<and> values s' = ((values s)(other_watch s lit c := 1))(- other_watch s lit c := - 1)
           \<and> watched s' = watched s
           \<and> watch1 (heap s' c) = watch1 (heap s c) \<and> watch2 (heap s' c) = watch2 (heap s c)
           \<and> (\<forall>c'. c' \<noteq> c \<longrightarrow> heap s' c' = heap s c')
           \<and> conflicts s' = conflicts s))"
proof (intro conjI impI)
  assume "values s (blocker (heap s c)) = 1 \<or> values s (other_watch s lit c) = 1"
  then show "visit lit c s buf = Some (None, s, buf)" by (rule visit_satisfied)
next
  assume a: "values s (blocker (heap s c)) \<noteq> 1 \<and> values s (other_watch s lit c) \<noteq> 1
        \<and> replacement s c = Some x"
  from a have 1: "values s (blocker (heap s c)) \<noteq> 1" and 2: "values s (other_watch s lit c) \<noteq> 1"
    and 3: "replacement s c = Some x" by blast+
  from visit_move [OF assms 1 2 3]
  show "\<exists>s'. visit lit c s buf = Some (None, s', compact (removeAll c (watched s (- lit))) buf)
           \<and> watched s' =
               (watched s)(- lit := removeAll c (watched s (- lit)), x := watched s x @ [c])
           \<and> (watch1 (heap s c) = - lit \<and> watch1 (heap s' c) = x
                 \<and> watch2 (heap s' c) = watch2 (heap s c)
               \<or> watch2 (heap s c) = - lit \<and> watch2 (heap s' c) = x
                 \<and> watch1 (heap s' c) = watch1 (heap s c))
           \<and> (\<forall>c'. c' \<noteq> c \<longrightarrow> heap s' c' = heap s c')
           \<and> values s' = values s \<and> trail s' = trail s \<and> conflicts s' = conflicts s" .
next
  assume a: "values s (blocker (heap s c)) \<noteq> 1 \<and> replacement s c = None
        \<and> values s (other_watch s lit c) = - 1"
  from a have 1: "values s (blocker (heap s c)) \<noteq> 1" and 2: "replacement s c = None"
    and 3: "values s (other_watch s lit c) = - 1" by blast+
  from visit_conflict [OF 1 2 3, of buf] obtain s' where
    v: "visit lit c s buf = Some (Some c, s', buf)"
    and r: "watched s' = watched s
           \<and> watch1 (heap s' c) = watch1 (heap s c) \<and> watch2 (heap s' c) = watch2 (heap s c)
           \<and> (\<forall>c'. c' \<noteq> c \<longrightarrow> heap s' c' = heap s c')
           \<and> values s' = values s \<and> trail s' = trail s \<and> conflicts s' = conflicts s + 1"
    by blast
  have "\<forall>i n. i < n \<and> buf ! i = c \<longrightarrow> visit_all lit i n s buf = Some (Some c, s')"
  proof (intro allI impI)
    fix i n assume "i < n \<and> buf ! i = c"
    with v have "i < n" "visit lit (buf ! i) s buf = Some (Some c, s', buf)" by simp_all
    from visit_all_step [OF this] show "visit_all lit i n s buf = Some (Some c, s')" by simp
  qed
  with v r show "\<exists>s'. visit lit c s buf = Some (Some c, s', buf)
           \<and> (\<forall>i n. i < n \<and> buf ! i = c \<longrightarrow> visit_all lit i n s buf = Some (Some c, s'))
           \<and> watched s' = watched s
           \<and> watch1 (heap s' c) = watch1 (heap s c) \<and> watch2 (heap s' c) = watch2 (heap s c)
           \<and> (\<forall>c'. c' \<noteq> c \<longrightarrow> heap s' c' = heap s c')
           \<and> values s' = values s \<and> trail s' = trail s \<and> conflicts s' = conflicts s + 1"
    by blast
next
  assume a: "values s (blocker (heap s c)) \<noteq> 1 \<and> replacement s c = None
        \<and> values s (other_watch s lit c) = 0"
  from a have 1: "values s (blocker (heap s c)) \<noteq> 1" and 2: "replacement s c = None"
    and 3: "values s (other_watch s lit c) = 0" by blast+
  from visit_unit [OF 1 2 3, of buf] obtain s' where
    v: "visit lit c s buf = Some (None, s', buf)"
    and r: "trail s' = trail s @ [other_watch s lit c]
           \<and> reasons s' \<bar>other_watch s lit c\<bar> = Some c
           \<and> levels s' \<bar>other_watch s lit c\<bar> = level s
           \<and> values s' = ((values s)(other_watch s lit c := 1))(- other_watch s lit c := - 1)
           \<and> watched s' = watched s
           \<and> watch1 (heap s' c) = watch1 (heap s c) \<and> watch2 (heap s' c) = watch2 (heap s c)
           \<and> (\<forall>c'. c' \<noteq> c \<longrightarrow> heap s' c' = heap s c')
           \<and> conflicts s' = conflicts s"
    by blast
  have "\<forall>i n. i < n \<and> buf ! i = c \<longrightarrow>
                 visit_all lit i n s buf = visit_all lit (i + 1) n s' buf"
  proof (intro allI impI)
    fix i n assume "i < n \<and> buf ! i = c"
    with v have "i < n" "visit lit (buf ! i) s buf = Some (None, s', buf)" by simp_all
    from visit_all_step [OF this]
    show "visit_all lit i n s buf = visit_all lit (i + 1) n s' buf" by simp
  qed
  with v r show "\<exists>s'. visit lit c s buf = Some (None, s', buf)
           \<and> (\<forall>i n. i < n \<and> buf ! i = c \<longrightarrow>
                 visit_all lit i n s buf = visit_all lit (i + 1) n s' buf)
           \<and> trail s' = trail s @ [other_watch s lit c]
           \<and> reasons s' \<bar>other_watch s lit c\<bar> = Some c
           \<and> levels s' \<bar>other_watch s lit c\<bar> = level s
           \<and> values s' = ((values s)(other_watch s lit c := 1))(- other_watch s lit c := - 1)
           \<and> watched s' = watched s
           \<and> watch1 (heap s' c) = watch1 (heap s c) \<and> watch2 (heap s' c) = watch2 (heap s c)
           \<and> (\<forall>c'. c' \<noteq> c \<longrightarrow> heap s' c' = heap s c')
           \<and> conflicts s' = conflicts s"
    by blast
qed


text \<open>
  The claim as stated fails where the blocker is true: in the run on the clause
  \<open>(-2 -3 -4 1)\<close> over 4 variables, after the decisions 1, 2 and 3 the clause watches
  \<open>-4\<close> and \<open>-3\<close>, its blocker is 1, and when 3 is propagated the other watched
  literal \<open>-4\<close> is unassigned and the literal 1 is not watched and true; the visit
  moves no watch.
\<close>

theorem visit_true_blocker_moves_no_watch:
  "(do {
      (r0, p0) \<leftarrow> propagate (parse 4 1000 [[- 2, - 3, - 4, 1]]);
      d1 \<leftarrow> decide p0;
      (r1, p1) \<leftarrow> propagate d1;
      d2 \<leftarrow> decide p1;
      (r2, p2) \<leftarrow> propagate d2;
      d3 \<leftarrow> decide p2;
      (r, s', buf') \<leftarrow> visit 3 0 d3 (watched d3 (- 3));
      Some (trail d3 = [1, 2, 3] \<and> propagated d3 = 2 \<and> watched d3 (- 3) = [0]
            \<and> literals (heap d3 0) = [- 2, - 3, - 4, 1]
            \<and> watch1 (heap d3 0) = - 4 \<and> watch2 (heap d3 0) = - 3
            \<and> values d3 (- 4) = 0 \<and> values d3 1 = 1 \<and> blocker (heap d3 0) = 1
            \<and> r = None
            \<and> watched s' (- 3) = [0] \<and> watched s' 1 = []
            \<and> watch1 (heap s' 0) = - 4 \<and> watch2 (heap s' 0) = - 3)
    }) = Some True"
  by code_simp

theorem visit_clause_cases_witness:
  "(\<exists>d s'. decide (parse 2 1000 [[2], [- 1, 2]]) = Some d
       \<and> visit 1 1 d (watched d (- 1)) = Some (None, d, watched d (- 1)))
   \<and> (\<exists>d s'. decide (parse 4 1000 [[- 1, 3, 4]]) = Some d
       \<and> visit 1 0 d [0] = Some (None, s', compact (removeAll 0 (watched d (- 1))) [0])
       \<and> watched s' = (watched d)(- 1 := removeAll 0 (watched d (- 1)), 4 := watched d 4 @ [0]))
   \<and> (\<exists>d s1 s'. decide (parse 2 1000 [[- 1, 2], [- 1, - 2]]) = Some d
       \<and> visit 1 0 d [0, 1] = Some (None, s1, [0, 1])
       \<and> trail s1 = trail d @ [other_watch d 1 0]
       \<and> visit 1 1 s1 [0, 1] = Some (Some 1, s', [0, 1])
       \<and> conflicts s' = conflicts s1 + 1)"
proof -
  have "case decide (parse 2 1000 [[2], [- 1, 2]]) of None \<Rightarrow> False | Some d \<Rightarrow>
          (watch1 (heap d 1) = - 1 \<or> watch2 (heap d 1) = - 1)
          \<and> (values d (blocker (heap d 1)) = 1 \<or> values d (other_watch d 1 1) = 1)"
    by code_simp
  then obtain d where d: "decide (parse 2 1000 [[2], [- 1, 2]]) = Some d"
    and h: "watch1 (heap d 1) = - 1 \<or> watch2 (heap d 1) = - 1"
    and t: "values d (blocker (heap d 1)) = 1 \<or> values d (other_watch d 1 1) = 1"
    by (cases "decide (parse 2 1000 [[2], [- 1, 2]])") simp_all
  from visit_clause_cases [OF h, THEN conjunct1, rule_format, OF t]
  have "visit 1 1 d (watched d (- 1)) = Some (None, d, watched d (- 1))" .
  with d have A: "\<exists>d s'. decide (parse 2 1000 [[2], [- 1, 2]]) = Some d
       \<and> visit 1 1 d (watched d (- 1)) = Some (None, d, watched d (- 1))"
    by blast
  have "case decide (parse 4 1000 [[- 1, 3, 4]]) of None \<Rightarrow> False | Some d \<Rightarrow>
          (watch1 (heap d 0) = - 1 \<or> watch2 (heap d 0) = - 1)
          \<and> (values d (blocker (heap d 0)) \<noteq> 1 \<and> values d (other_watch d 1 0) \<noteq> 1
              \<and> replacement d 0 = Some 4)"
    by code_simp
  then obtain d where d: "decide (parse 4 1000 [[- 1, 3, 4]]) = Some d"
    and h: "watch1 (heap d 0) = - 1 \<or> watch2 (heap d 0) = - 1"
    and t: "values d (blocker (heap d 0)) \<noteq> 1 \<and> values d (other_watch d 1 0) \<noteq> 1
              \<and> replacement d 0 = Some 4"
    by (cases "decide (parse 4 1000 [[- 1, 3, 4]])") simp_all
  from visit_clause_cases [OF h, THEN conjunct2, THEN conjunct1, rule_format, OF t, of "[0]"]
  obtain s' where "visit 1 0 d [0] = Some (None, s', compact (removeAll 0 (watched d (- 1))) [0])"
    "watched s' = (watched d)(- 1 := removeAll 0 (watched d (- 1)), 4 := watched d 4 @ [0])"
    by blast
  with d have B: "\<exists>d s'. decide (parse 4 1000 [[- 1, 3, 4]]) = Some d
       \<and> visit 1 0 d [0] = Some (None, s', compact (removeAll 0 (watched d (- 1))) [0])
       \<and> watched s' = (watched d)(- 1 := removeAll 0 (watched d (- 1)), 4 := watched d 4 @ [0])"
    by blast
  have "case decide (parse 2 1000 [[- 1, 2], [- 1, - 2]]) of None \<Rightarrow> False | Some d \<Rightarrow>
          (watch1 (heap d 0) = - 1 \<or> watch2 (heap d 0) = - 1)
          \<and> (values d (blocker (heap d 0)) \<noteq> 1 \<and> replacement d 0 = None
              \<and> values d (other_watch d 1 0) = 0)
          \<and> (case visit 1 0 d [0, 1] of None \<Rightarrow> False | Some (r, s1, b1) \<Rightarrow>
               (watch1 (heap s1 1) = - 1 \<or> watch2 (heap s1 1) = - 1)
               \<and> (values s1 (blocker (heap s1 1)) \<noteq> 1 \<and> replacement s1 1 = None
                   \<and> values s1 (other_watch s1 1 1) = - 1))"
    by code_simp
  then obtain d where d: "decide (parse 2 1000 [[- 1, 2], [- 1, - 2]]) = Some d"
    and h: "watch1 (heap d 0) = - 1 \<or> watch2 (heap d 0) = - 1"
    and t: "values d (blocker (heap d 0)) \<noteq> 1 \<and> replacement d 0 = None
              \<and> values d (other_watch d 1 0) = 0"
    and n: "case visit 1 0 d [0, 1] of None \<Rightarrow> False | Some (r, s1, b1) \<Rightarrow>
               (watch1 (heap s1 1) = - 1 \<or> watch2 (heap s1 1) = - 1)
               \<and> (values s1 (blocker (heap s1 1)) \<noteq> 1 \<and> replacement s1 1 = None
                   \<and> values s1 (other_watch s1 1 1) = - 1)"
    by (cases "decide (parse 2 1000 [[- 1, 2], [- 1, - 2]])") simp_all
  from visit_clause_cases [OF h, THEN conjunct2, THEN conjunct2, THEN conjunct2, rule_format,
      OF t, of "[0, 1]"]
  obtain s1 where v1: "visit 1 0 d [0, 1] = Some (None, s1, [0, 1])"
    and t1: "trail s1 = trail d @ [other_watch d 1 0]"
    by blast
  from n v1 have h1: "watch1 (heap s1 1) = - 1 \<or> watch2 (heap s1 1) = - 1"
    and c1: "values s1 (blocker (heap s1 1)) \<noteq> 1 \<and> replacement s1 1 = None
                   \<and> values s1 (other_watch s1 1 1) = - 1"
    by simp_all
  from visit_clause_cases [OF h1, THEN conjunct2, THEN conjunct2, THEN conjunct1, rule_format,
      OF c1, of "[0, 1]"]
  obtain s' where "visit 1 1 s1 [0, 1] = Some (Some 1, s', [0, 1])"
    "conflicts s' = conflicts s1 + 1"
    by blast
  with d v1 t1 have C: "\<exists>d s1 s'. decide (parse 2 1000 [[- 1, 2], [- 1, - 2]]) = Some d
       \<and> visit 1 0 d [0, 1] = Some (None, s1, [0, 1])
       \<and> trail s1 = trail d @ [other_watch d 1 0]
       \<and> visit 1 1 s1 [0, 1] = Some (Some 1, s', [0, 1])
       \<and> conflicts s' = conflicts s1 + 1"
    by blast
  from A B C show ?thesis by blast
qed


section \<open>The watches after a clause visit\<close>

text \<open>
  Claim C3 fails as stated.  In the run on the clause \<open>(-2 -3 -4 1)\<close> over 4 variables
  the clause watches \<open>-2\<close> and \<open>-3\<close>.  The decision 1 makes the last literal true.
  Propagating the decision 2 visits the clause: \<open>-4\<close> is the first literal that is
  not watched and not false, so the watch moves from \<open>-2\<close> to \<open>-4\<close>, and the inner
  loop, which runs to the end of the clause, makes the true literal 1 the blocker.
  The visits for the decisions 3 and 4 stop at the guard on the true blocker.  After
  the last call of \<^verbatim>\<open>propagate\<close>, which returns no conflict, the clause has four
  literals and both watched literals, \<open>-4\<close> and \<open>-3\<close>, are false.
\<close>

theorem propagate_none_both_watches_false:
  "(do {
      (r0, p0) \<leftarrow> propagate (parse 4 1000 [[- 2, - 3, - 4, 1]]);
      d1 \<leftarrow> decide p0;
      (r1, p1) \<leftarrow> propagate d1;
      d2 \<leftarrow> decide p1;
      (r2, p2) \<leftarrow> propagate d2;
      d3 \<leftarrow> decide p2;
      (r3, p3) \<leftarrow> propagate d3;
      d4 \<leftarrow> decide p3;
      (r4, p4) \<leftarrow> propagate d4;
      Some (r4 = None \<and> clauses p4 = [0] \<and> length (literals (heap p4 0)) = 4
            \<and> watch1 (heap p4 0) = - 4 \<and> watch2 (heap p4 0) = - 3
            \<and> values p4 (- 4) = - 1 \<and> values p4 (- 3) = - 1
            \<and> blocker (heap p4 0) = 1 \<and> values p4 1 = 1)
    }) = Some True"
  by code_simp

text \<open>
  Claim C3 as the code has it, for one pass of the loop body of \<^verbatim>\<open>propagate\<close>: when
  the clause visited has both watched positions set (size at least 2), its blocker
  is not true and the pass does not return the clause as conflicting, then right
  after the pass at least one of its two watched literals is true or unassigned.
\<close>

theorem visit_keeps_live_watch:
  assumes v: "visit lit c s buf = Some (None, s', buf')"
    and nb: "values s (blocker (heap s c)) \<noteq> 1"
    and w: "watch1 (heap s c) \<noteq> 0 \<and> watch2 (heap s c) \<noteq> 0"
    and rng: "three_valued s"
  shows "(values s' (watch1 (heap s' c)) = 1 \<or> values s' (watch1 (heap s' c)) = 0)
       \<or> (values s' (watch2 (heap s' c)) = 1 \<or> values s' (watch2 (heap s' c)) = 0)"
proof (cases "values s (other_watch s lit c) = 1")
  case True
  with visit_satisfied [of s c lit buf] v have "s' = s" by simp
  with True other_watch_cases [of s lit c] show ?thesis by auto
next
  case nc: False
  show ?thesis
  proof (cases "replacement s c")
    case (Some x)
    from find_Some_split [OF Some [unfolded replacement_def]] have px: "replaces s c x" by blast
    then have x1: "x \<noteq> watch1 (heap s c)" and x2: "x \<noteq> watch2 (heap s c)"
      and xv: "values s x > - 1"
      by (auto simp: replaces_def)
    have xl: "x \<noteq> - lit"
    proof
      assume "x = - lit"
      with visit_replacement_undefined [OF nb nc, of buf] Some v show False by simp
    qed
    from visit_replacement [OF nb nc Some xl, of buf] v obtain s1 where
      b1: "same_but_blocker c s s1"
      and b2: "same_but_blocker c (move_watch lit c (other_watch s lit c) x s1) s'"
      by auto
    note f1 = same_but_blocker_fields [OF b1]
    note f2 = same_but_blocker_fields [OF b2]
    have ow: "other_watch s1 lit c = other_watch s lit c"
      by (simp add: other_watch_def f1)
    from move_watch_positions [of x s1 c lit] x1 x2
    have "watch1 (heap s' c) = x \<or> watch2 (heap s' c) = x"
      by (simp add: f2 f1 ow split: if_splits)
    moreover have "values s' x = values s x" by (simp add: f2 move_watch_frame f1)
    moreover from rng xv have "values s x = 1 \<or> values s x = 0"
      unfolding three_valued_def by (metis less_irrefl)
    ultimately show ?thesis by auto
  next
    case None
    from visit_no_replacement [OF nb nc None, of buf] obtain s1 where
      b1: "same_but_blocker c s s1"
      and e: "visit lit c s buf =
               (if values s (other_watch s lit c) = - 1
                then Some (Some c, s1\<lparr>conflicts := conflicts s1 + 1\<rparr>, buf)
                else if values s (other_watch s lit c) = 0
                then Some (None, assign (other_watch s lit c) (Some c) s1, buf)
                else Some (None, s1, buf))"
      by blast
    note f1 = same_but_blocker_fields [OF b1]
    from rng nc have "values s (other_watch s lit c) = - 1 \<or> values s (other_watch s lit c) = 0"
      unfolding three_valued_def by blast
    with e v have cv: "values s (other_watch s lit c) = 0"
      and s': "s' = assign (other_watch s lit c) (Some c) s1"
      by auto
    from w other_watch_cases [of s lit c] have c0: "other_watch s lit c \<noteq> 0" by auto
    have "values s' (other_watch s lit c) = 1"
      unfolding s' using c0 by (simp add: values_assign)
    moreover have "watch1 (heap s' c) = watch1 (heap s c)" "watch2 (heap s' c) = watch2 (heap s c)"
      unfolding s' by (simp_all add: assign_def f1)
    ultimately show ?thesis using other_watch_cases [of s lit c] by auto
  qed
qed


theorem visit_keeps_live_watch_witness:
  "\<exists>s' buf'.
     visit 1 1 (parse 2 1000 [[1], [- 1, 2]]) (watched (parse 2 1000 [[1], [- 1, 2]]) (- 1))
       = Some (None, s', buf')
     \<and> ((values s' (watch1 (heap s' 1)) = 1 \<or> values s' (watch1 (heap s' 1)) = 0)
        \<or> (values s' (watch2 (heap s' 1)) = 1 \<or> values s' (watch2 (heap s' 1)) = 0))"
proof -
  define s0 where "s0 = parse 2 1000 [[1], [- 1, 2]]"
  have "case visit 1 1 (parse 2 1000 [[1], [- 1, 2]])
               (watched (parse 2 1000 [[1], [- 1, 2]]) (- 1)) of
          Some (None, s', b') \<Rightarrow>
            values (parse 2 1000 [[1], [- 1, 2]]) (blocker (heap (parse 2 1000 [[1], [- 1, 2]]) 1)) \<noteq> 1
            \<and> (watch1 (heap (parse 2 1000 [[1], [- 1, 2]]) 1) \<noteq> 0
               \<and> watch2 (heap (parse 2 1000 [[1], [- 1, 2]]) 1) \<noteq> 0)
        | _ \<Rightarrow> False"
    by code_simp
  then obtain s' b' where v: "visit 1 1 s0 (watched s0 (- 1)) = Some (None, s', b')"
    and nb: "values s0 (blocker (heap s0 1)) \<noteq> 1"
    and w: "watch1 (heap s0 1) \<noteq> 0 \<and> watch2 (heap s0 1) \<noteq> 0"
    unfolding s0_def [symmetric]
    by (cases "visit 1 1 s0 (watched s0 (- 1))") (auto split: prod.splits option.splits)
  have "three_valued (add_clause [- 1, 2] (add_clause [1] (initialize 2 1000)))"
    by (intro three_valued_add_clause three_valued_initialize)
  then have rng: "three_valued s0" by (simp add: s0_def parse_def)
  from visit_keeps_live_watch [OF v nb w rng] v show ?thesis
    unfolding s0_def by blast
qed


section \<open>What the minimization removes\<close>

text \<open>
  Claim C5 fails as stated: a literal of the antecedent that is assigned at level 0
  does not count as present.  In the run on \<open>(1) (-2 3 -1) (-4 5) (-4 -5 -3 -2)\<close> over
  5 variables (clauses 0 to 3), 1 is assigned at level 0 when the unit clause is
  added; the decision 2 (level 1) forces 3 by clause 1; the decision 4 (level 2)
  forces 5 by clause 2, and clause 3 is the conflict.  The UIP is 4 and the candidate
  is \<open>[-3, -2]\<close>.  The antecedent of \<open>-3\<close> is clause 1, whose other literals are
  \<open>-2\<close>, which is in the candidate, and \<open>-1\<close>, which is assigned at level 0 and is
  not in the candidate; by the claim \<open>-3\<close> is removed, and the minimization keeps it.
\<close>

theorem minimize_keeps_literal_with_level_zero_antecedent:
  "(do {
      (r0, p0) \<leftarrow> propagate (parse 5 1000 [[1], [- 2, 3, - 1], [- 4, 5], [- 4, - 5, - 3, - 2]]);
      d1 \<leftarrow> decide p0;
      (r1, p1) \<leftarrow> propagate d1;
      d2 \<leftarrow> decide p1;
      (r2, p2) \<leftarrow> propagate d2;
      c \<leftarrow> r2;
      (s2, uip, learned0, learned1, b) \<leftarrow> analyze_conflict c p2;
      Some (trail p2 = [1, 2, 3, 4, 5] \<and> c = 3 \<and> uip = 4 \<and> learned0 = [- 3, - 2]
            \<and> reasons s2 3 = Some 1 \<and> literals (heap s2 1) = [- 2, 3, - 1]
            \<and> levels s2 1 = 0 \<and> values s2 (- 1) = - 1
            \<and> minimize s2 learned0 = [- 3, - 2] \<and> learned1 = [- 3, - 2])
    }) = Some True"
  by code_simp

text \<open>
  Claim C5 as the code has it.  The minimization only removes literals, and it
  removes a literal \<open>l\<close> of the candidate only when \<open>l\<close> has a reason and every
  literal of that reason on another variable is itself in the candidate; a literal
  without a reason is never removed.  The candidate does not hold the UIP: the
  negated UIP is pushed behind the minimized candidate, and that vector is the
  clause \<^verbatim>\<open>analyze\<close> stores when it has more than one literal.
\<close>

theorem minimize_removes_only_redundant:
  "set (minimize s learned) \<subseteq> set learned
   \<and> (\<forall>l\<in>set learned. l \<notin> set (minimize s learned) \<longrightarrow>
        (\<exists>reason. reasons s \<bar>l\<bar> = Some reason
           \<and> (\<forall>other\<in>set (literals (heap s reason)).
                 \<bar>other\<bar> \<noteq> \<bar>l\<bar> \<longrightarrow> other \<in> set learned)))
   \<and> (\<forall>l\<in>set learned. reasons s \<bar>l\<bar> = None \<longrightarrow> l \<in> set (minimize s learned))
   \<and> (analyze_conflict c s0 = Some (s, uip, learned, learned1, b) \<longrightarrow>
        learned1 = minimize s learned)
   \<and> (analyze_conflict c s0 = Some (s, uip, learned, learned1, b) \<and> analyze c s0 = Some s'
        \<and> learned1 \<noteq> [] \<longrightarrow>
        literals (heap s' (added s0)) = learned1 @ [- uip])"
proof -
  note m = minimize_removes [of s learned, unfolded redundant_def]
  from m have 1: "set (minimize s learned) \<subseteq> set learned" by blast
  from m have 2: "\<forall>l\<in>set learned. l \<notin> set (minimize s learned) \<longrightarrow>
        (\<exists>reason. reasons s \<bar>l\<bar> = Some reason
           \<and> (\<forall>other\<in>set (literals (heap s reason)).
                 \<bar>other\<bar> \<noteq> \<bar>l\<bar> \<longrightarrow> other \<in> set learned))" by blast
  have 3: "\<forall>l\<in>set learned. reasons s \<bar>l\<bar> = None \<longrightarrow> l \<in> set (minimize s learned)"
  proof (intro ballI impI)
    fix l assume l: "l \<in> set learned" and n: "reasons s \<bar>l\<bar> = None"
    show "l \<in> set (minimize s learned)"
    proof (rule ccontr)
      assume "l \<notin> set (minimize s learned)"
      with 2 l obtain reason where "reasons s \<bar>l\<bar> = Some reason" by blast
      with n show False by simp
    qed
  qed
  from 1 2 3 analyze_conflict_minimize [of c s0 s uip learned learned1 b]
    analyze_stores_learned [of c s0 s uip learned learned1 b s']
  show ?thesis by blast
qed


theorem minimize_removes_only_redundant_witness:
  "\<exists>s c s0 s'.
     analyze_conflict c s0 = Some (s, 3, [- 2, - 1], [- 1], 1)
     \<and> analyze c s0 = Some s'
     \<and> - 2 \<in> set [- 2, - 1 :: int] \<and> - 2 \<notin> set (minimize s [- 2, - 1])
     \<and> (\<exists>reason. reasons s \<bar>- 2\<bar> = Some reason
           \<and> (\<forall>other\<in>set (literals (heap s reason)).
                 \<bar>other\<bar> \<noteq> \<bar>- 2\<bar> \<longrightarrow> other \<in> set [- 2, - 1]))
     \<and> - 1 \<in> set (minimize s [- 2, - 1])
     \<and> literals (heap s' (added s0)) = [- 1, - 3]"
proof -
  let ?F = "parse 4 1000 [[- 1, 2], [- 3, 4], [- 3, - 4, - 2, - 1]]"
  let ?p2 = "snd (the (propagate (the (decide (snd (the (propagate (the (decide ?F))))))))) "
  have e1: "case analyze_conflict 2 ?p2 of None \<Rightarrow> False
        | Some (s, uip, learned0, learned1, b) \<Rightarrow>
            uip = 3 \<and> learned0 = [- 2, - 1] \<and> learned1 = [- 1] \<and> b = 1
            \<and> reasons s \<bar>- 1\<bar> = None"
    by code_simp
  have e2: "case analyze 2 ?p2 of None \<Rightarrow> False | Some s' \<Rightarrow> True"
    by code_simp
  from e1 obtain s where ac: "analyze_conflict 2 ?p2 = Some (s, 3, [- 2, - 1], [- 1], 1)"
    and rn: "reasons s \<bar>- 1\<bar> = None"
    by (cases "analyze_conflict 2 ?p2") (auto split: prod.splits)
  from e2 obtain s' where an: "analyze 2 ?p2 = Some s'"
    by (cases "analyze 2 ?p2") simp_all
  note T = minimize_removes_only_redundant [of s "[- 2, - 1]" 2 ?p2 3 "[- 1]" 1 s']
  from T ac have m: "[- 1] = minimize s [- 2, - 1]" by blast
  have out: "- 2 \<notin> set (minimize s [- 2, - 1])"
    unfolding m [symmetric] by simp
  from T out have red: "\<exists>reason. reasons s \<bar>- 2\<bar> = Some reason
           \<and> (\<forall>other\<in>set (literals (heap s reason)).
                 \<bar>other\<bar> \<noteq> \<bar>- 2\<bar> \<longrightarrow> other \<in> set [- 2, - 1])"
    by simp
  from T rn have keep: "- 1 \<in> set (minimize s [- 2, - 1])" by simp
  from T ac an have st: "literals (heap s' (added ?p2)) = [- 1] @ [- 3]" by blast
  from ac an out red keep st show ?thesis
    by (intro exI [of _ s] exI [of _ 2] exI [of _ ?p2] exI [of _ s']) simp
qed


section \<open>The decision heuristic\<close>

text \<open>
  Claim C9.  In every state of a run in which some variable of \<open>1..variables\<close> is
  unassigned, \<^verbatim>\<open>decide\<close> returns, and the literal it assigns is the positive literal of
  the unassigned variable of smallest index: it is appended to the trail with value
  true and without a reason, after the height of the trail has been pushed on
  \<open>control\<close> and the level has been incremented, so that the level recorded for it is
  the new one.  The reason is the invariant of the cursor \<^verbatim>\<open>searched\<close>, which holds
  in every such state because \<^verbatim>\<open>unassign\<close> lowers the cursor to a freed variable
  below it: no variable below the cursor is unassigned.
\<close>

theorem decide_smallest_unassigned:
  assumes "reachable s" and "\<exists>v. 1 \<le> v \<and> v \<le> variables s \<and> values s v = 0"
  shows "searched_invariant s
     \<and> (\<exists>v s'. decide s = Some s'
          \<and> 1 \<le> v \<and> v \<le> variables s \<and> values s v = 0
          \<and> (\<forall>u. 1 \<le> u \<and> u < v \<longrightarrow> values s u \<noteq> 0)
          \<and> s' = assign v None
                   (s\<lparr>decisions := decisions s + 1, searched := v, level := level s + 1,
                      control := control s @ [length (trail s)],
                      stamped := (stamped s)(v := 0)\<rparr>)
          \<and> trail s' = trail s @ [v] \<and> values s' v = 1 \<and> reasons s' v = None
          \<and> levels s' v = level s + 1
          \<and> control s' = control s @ [length (trail s)] \<and> level s' = level s + 1)"
proof -
  from reachable_basic_invariant [OF assms(1)] have si: "searched_invariant s"
    unfolding basic_invariant_def by blast
  then have one: "1 \<le> searched s"
    and old: "\<And>u. 1 \<le> u \<Longrightarrow> u < searched s \<Longrightarrow> values s u \<noteq> 0"
    unfolding searched_invariant_def by blast+
  from assms(2) obtain w where w: "1 \<le> w" "w \<le> variables s" "values s w = 0" by blast
  from old [OF w(1)] w(3) have "searched s \<le> w" by fastforce
  from next_unassigned_exists [OF this w(2,3)] obtain v where
    n: "next_unassigned s (searched s) = Some v" by blast
  from next_unassigned_Some [OF n] have sv: "searched s \<le> v" and vv: "v \<le> variables s"
    and v0: "values s v = 0"
    and new: "\<And>u. searched s \<le> u \<Longrightarrow> u < v \<Longrightarrow> values s u \<noteq> 0" by blast+
  from one sv have v1: "1 \<le> v" by simp
  have least: "\<forall>u. 1 \<le> u \<and> u < v \<longrightarrow> values s u \<noteq> 0"
  proof (intro allI impI)
    fix u assume "1 \<le> u \<and> u < v"
    then show "values s u \<noteq> 0"
      using old [of u] new [of u] by (cases "u < searched s") simp_all
  qed
  let ?s' = "assign v None
                   (s\<lparr>decisions := decisions s + 1, searched := v, level := level s + 1,
                      control := control s @ [length (trail s)],
                      stamped := (stamped s)(v := 0)\<rparr>)"
  from n have d: "decide s = Some ?s'" by (simp add: decide_def)
  from v1 have f: "trail ?s' = trail s @ [v]" "values ?s' v = 1" "reasons ?s' v = None"
    "levels ?s' v = level s + 1" "control ?s' = control s @ [length (trail s)]"
    "level ?s' = level s + 1"
    by (simp_all add: assign_def)
  from si d v1 vv v0 least f show ?thesis by blast
qed

theorem decide_smallest_unassigned_witness:
  "\<exists>s'. decide (add_clause [1] (initialize 3 1000)) = Some s'
     \<and> trail s' = [1, 2] \<and> reasons s' 2 = None \<and> control s' = [1] \<and> level s' = 1"
proof -
  let ?s = "add_clause [1] (initialize 3 1000)"
  have r: "reachable ?s"
    by (rule reachable_add_clause [OF reachable_initialize]) simp
  have vals: "values ?s 1 = 1" "values ?s 2 = 0" "variables ?s = 3" "trail ?s = [1]"
    "control ?s = []" "level ?s = 0"
    by code_simp+
  then have "\<exists>v. 1 \<le> v \<and> v \<le> variables ?s \<and> values ?s v = 0"
    by (intro exI [of _ 2]) simp
  from decide_smallest_unassigned [OF r this] obtain v s' where
    d: "decide ?s = Some s'" and v: "1 \<le> v" "values ?s v = 0"
    and least: "\<forall>u. 1 \<le> u \<and> u < v \<longrightarrow> values ?s u \<noteq> 0"
    and f: "trail s' = trail ?s @ [v]" "reasons s' v = None"
      "control s' = control ?s @ [length (trail ?s)]" "level s' = level ?s + 1"
    by blast
  from least vals(2) have "\<not> 2 < v" by auto
  moreover from v vals(1) have "v \<noteq> 1" by auto
  ultimately have "v = 2" using v(1) by simp
  with d f vals show ?thesis by simp
qed

section \<open>Trail consistency\<close>

text \<open>
  Claim C7.  At every quiescent point of a run, for every index \<open>i\<close> into the trail,
  the literal \<open>trail[i]\<close> has the value true, and the level recorded for its variable
  is the number of decision literals on the trail at positions up to and including
  \<open>i\<close>.  The positions of the decision literals are the entries of \<open>control\<close>; in a
  state between two calls they all lie on the trail.
\<close>

theorem trail_consistency:
  assumes "quiescent s" and "i < length (trail s)"
  shows "values s (trail s ! i) = 1
     \<and> levels s \<bar>trail s ! i\<bar> = card {p \<in> set (control s). p \<le> i}
     \<and> (reachable s \<longrightarrow> set (control s) \<subseteq> {..<length (trail s)})"
proof -
  from quiescent_trail_consistent [OF assms(1)]
  have tc: "trail_consistent s" and so: "sorted_wrt (<) (control s)" by blast+
  from tc assms(2) have "values s (trail s ! i) = 1"
    "levels s \<bar>trail s ! i\<bar> = decisions_upto s i"
    unfolding trail_consistent_def by blast+
  moreover note decisions_upto_card [OF so, of i]
  moreover have "set (control s) \<subseteq> {..<length (trail s)}" if "reachable s"
    using trail_invariantD(5) [OF reachable_trail_invariant [OF that]] by auto
  ultimately show ?thesis by simp
qed

theorem trail_consistency_witness:
  "\<exists>s'. decide (add_clause [1] (initialize 3 1000)) = Some s'
     \<and> values s' (trail s' ! 1) = 1
     \<and> levels s' \<bar>trail s' ! 1\<bar> = card {p \<in> set (control s'). p \<le> 1}
     \<and> set (control s') \<subseteq> {..<length (trail s')}"
proof -
  let ?s = "add_clause [1] (initialize 3 1000)"
  have r: "reachable ?s"
    by (rule reachable_add_clause [OF reachable_initialize]) simp
  have "\<exists>w. next_unassigned ?s (searched ?s) = Some w"
    by (rule next_unassigned_exists [of _ 2]) code_simp+
  then obtain s' where d: "decide ?s = Some s'" by (auto simp: decide_def)
  from d obtain v where "s' = assign v None
            (?s\<lparr>decisions := decisions ?s + 1, searched := v, level := level ?s + 1,
               control := control ?s @ [length (trail ?s)], stamped := (stamped ?s)(v := 0)\<rparr>)"
    by (rule decide_eq)
  then have "length (trail s') = length (trail ?s) + 1" by (simp add: assign_def)
  moreover have "length (trail ?s) = 1" by code_simp
  ultimately have l: "1 < length (trail s')" by simp
  note r' = reachable_decide [OF r d]
  from trail_consistency [OF quiescent_reachable [OF r'] l] r' d show ?thesis by blast
qed

end
